theory Spec2Isabelle
  imports Main
begin

section \<open>Python values, text and errors\<close>

text \<open>
  The model of \<^verbatim>\<open>warcat/model.py\<close>. A byte sequence is a \<open>string\<close>, a list of 8-bit characters.
  A text (a Python \<^verbatim>\<open>str\<close>) is represented by its UTF-8 encoding, so it is a \<open>string\<close> too:
  \<^verbatim>\<open>bytes.decode()\<close> checks that the bytes are UTF-8 and returns them, \<^verbatim>\<open>str.encode()\<close> returns
  the representation, and the number of bytes of an encoded text is the length of its
  representation. Text with a lone surrogate has no encoding and is not represented.

  A field value is a Python object. The source stores \<^verbatim>\<open>str\<close> values when it parses and an
  \<^verbatim>\<open>int\<close> when it corrects \<^verbatim>\<open>Content-Length\<close>; a lookup that finds nothing returns \<^verbatim>\<open>None\<close>.

  The exceptions that the modelled code raises. \<^verbatim>\<open>UnicodeDecodeError\<close> is a subclass of
  \<^verbatim>\<open>ValueError\<close>: \<open>is_ValueError\<close> is the test that \<^verbatim>\<open>except ValueError\<close> makes.
\<close>

datatype pyval = PyNone | PyStr string | PyInt int

datatype error = IOError | ValueError | UnicodeDecodeError | KeyError | TypeError | AttributeError

definition is_ValueError :: "error \<Rightarrow> bool" where
  "is_ValueError e = (e = ValueError \<or> e = UnicodeDecodeError)"

type_synonym bytes = string

definition CR :: char where
  "CR = CHR 0x0D"

definition LF :: char where
  "LF = CHR 0x0A"

definition NEWLINE :: string where
  "NEWLINE = [CR, LF]"

definition NEWLINE_BYTES :: bytes where
  "NEWLINE_BYTES = [CR, LF]"

definition FIELD_DELIM_BYTES :: bytes where
  "FIELD_DELIM_BYTES = NEWLINE_BYTES @ NEWLINE_BYTES"

text \<open>
  \<^verbatim>\<open>bytes.decode()\<close>, with the default codec \<^verbatim>\<open>utf-8\<close> and the default error handler
  \<^verbatim>\<open>strict\<close>: a byte below 128 is a character; a lead byte 0xC2 to 0xDF takes one
  continuation byte (0x80 to 0xBF), 0xE0 to 0xEF two and 0xF0 to 0xF4 three; the first
  continuation byte is narrowed after 0xE0 and 0xF0 (no overlong form), after 0xED (no
  surrogate) and after 0xF4 (nothing above U+10FFFF). Any other byte, or a sequence cut
  short, is a \<^verbatim>\<open>UnicodeDecodeError\<close>.
\<close>

definition is_cont :: "char \<Rightarrow> bool" where
  "is_cont c = (let n = (of_char c :: nat) in 128 \<le> n \<and> n \<le> 191)"

definition in_range :: "char \<Rightarrow> nat \<Rightarrow> nat \<Rightarrow> bool" where
  "in_range c lo hi = (let n = (of_char c :: nat) in lo \<le> n \<and> n \<le> hi)"

fun valid_utf8 :: "bytes \<Rightarrow> bool" where
  "valid_utf8 [] = True"
| "valid_utf8 (a # bs) =
     (let n = (of_char a :: nat) in
      if n < 128 then valid_utf8 bs
      else if 194 \<le> n \<and> n \<le> 223 then
        (case bs of b # r \<Rightarrow> is_cont b \<and> valid_utf8 r | _ \<Rightarrow> False)
      else if 224 \<le> n \<and> n \<le> 239 then
        (case bs of
           b # c # r \<Rightarrow>
             in_range b (if n = 224 then 160 else 128) (if n = 237 then 159 else 191) \<and>
             is_cont c \<and> valid_utf8 r
         | _ \<Rightarrow> False)
      else if 240 \<le> n \<and> n \<le> 244 then
        (case bs of
           b # c # d # r \<Rightarrow>
             in_range b (if n = 240 then 144 else 128) (if n = 244 then 143 else 191) \<and>
             is_cont c \<and> is_cont d \<and> valid_utf8 r
         | _ \<Rightarrow> False)
      else False)"

definition decode :: "bytes \<Rightarrow> error + string" where
  "decode b = (if valid_utf8 b then Inr b else Inl UnicodeDecodeError)"

definition encode :: "string \<Rightarrow> bytes" where
  "encode s = s"

text \<open>The slice \<^verbatim>\<open>s[n:]\<close> of a text: \<open>n\<close> characters are dropped, each one a byte and the
  continuation bytes that follow it.\<close>

fun drop_chars :: "nat \<Rightarrow> string \<Rightarrow> string" where
  "drop_chars 0 s = s"
| "drop_chars (Suc n) [] = []"
| "drop_chars (Suc n) (c # cs) = drop_chars n (dropWhile is_cont cs)"

text \<open>\<^verbatim>\<open>str.lower()\<close>: the letters A to Z move to a to z. It is exact on ASCII text; the
  lower-case forms of other letters are left out, their bytes stay as they are.\<close>

definition lower_char :: "char \<Rightarrow> char" where
  "lower_char c =
     (let n = (of_char c :: nat) in if 65 \<le> n \<and> n \<le> 90 then char_of (n + 32) else c)"

definition lower :: "string \<Rightarrow> string" where
  "lower s = map lower_char s"

text \<open>
  Whitespace, as \<^verbatim>\<open>str.isspace()\<close> and \<^verbatim>\<open>str.lstrip()\<close> know it: in ASCII the codes 9 to 13
  and 28 to 32 (\<open>is_space\<close>); outside ASCII the characters U+0085, U+00A0, U+1680, U+2000
  to U+200A, U+2028, U+2029, U+202F, U+205F and U+3000, listed here by their encodings.
\<close>

definition is_space :: "char \<Rightarrow> bool" where
  "is_space c =
     (let n = (of_char c :: nat) in (9 \<le> n \<and> n \<le> 13) \<or> (28 \<le> n \<and> n \<le> 32))"

definition unicode_spaces :: "string list" where
  "unicode_spaces =
     [[CHR 0xC2, CHR 0x85], [CHR 0xC2, CHR 0xA0],
      [CHR 0xE1, CHR 0x9A, CHR 0x80],
      [CHR 0xE2, CHR 0x80, CHR 0x80], [CHR 0xE2, CHR 0x80, CHR 0x81],
      [CHR 0xE2, CHR 0x80, CHR 0x82], [CHR 0xE2, CHR 0x80, CHR 0x83],
      [CHR 0xE2, CHR 0x80, CHR 0x84], [CHR 0xE2, CHR 0x80, CHR 0x85],
      [CHR 0xE2, CHR 0x80, CHR 0x86], [CHR 0xE2, CHR 0x80, CHR 0x87],
      [CHR 0xE2, CHR 0x80, CHR 0x88], [CHR 0xE2, CHR 0x80, CHR 0x89],
      [CHR 0xE2, CHR 0x80, CHR 0x8A], [CHR 0xE2, CHR 0x80, CHR 0xA8],
      [CHR 0xE2, CHR 0x80, CHR 0xA9], [CHR 0xE2, CHR 0x80, CHR 0xAF],
      [CHR 0xE2, CHR 0x81, CHR 0x9F], [CHR 0xE3, CHR 0x80, CHR 0x80]]"

definition startswith :: "string \<Rightarrow> string \<Rightarrow> bool" where
  "startswith s p = (take (length p) s = p)"

text \<open>The number of bytes of the whitespace character that a text begins with, 0 when it
  begins with none.\<close>

definition space_len :: "string \<Rightarrow> nat" where
  "space_len s =
     (case s of
        [] \<Rightarrow> 0
      | c # cs \<Rightarrow>
          if is_space c then 1
          else (case find (startswith s) unicode_spaces of
                  None \<Rightarrow> 0
                | Some p \<Rightarrow> length p))"

lemma space_len_le: "space_len s \<le> length s"
proof (cases s)
  case Nil
  then show ?thesis by (simp add: space_len_def)
next
  case (Cons c cs)
  show ?thesis
  proof (cases "is_space c")
    case True
    with Cons show ?thesis by (simp add: space_len_def)
  next
    case False
    show ?thesis
    proof (cases "find (startswith s) unicode_spaces")
      case None
      with Cons False show ?thesis by (simp add: space_len_def)
    next
      case (Some p)
      then have "startswith s p" by (auto simp: find_Some_iff)
      then have "length (take (length p) s) = length p" by (simp add: startswith_def)
      then have "length p \<le> length s" by simp
      with Cons False Some show ?thesis by (simp add: space_len_def)
    qed
  qed
qed

text \<open>\<^verbatim>\<open>str.lstrip()\<close>: whitespace characters are removed from the left until none is left
  there.\<close>

function lstrip :: "string \<Rightarrow> string" where
  "lstrip s = (if space_len s = 0 then s else lstrip (drop (space_len s) s))"
  by pat_completeness auto
termination
proof (relation "measure length")
  show "wf (measure length)" by simp
next
  fix s :: string
  assume "space_len s \<noteq> 0"
  moreover have "space_len s \<le> length s" by (rule space_len_le)
  ultimately show "(drop (space_len s) s, s) \<in> measure length" by simp
qed

declare lstrip.simps [simp del]

text \<open>\<^verbatim>\<open>str(i)\<close> for an integer, as \<^verbatim>\<open>'{}'.format\<close> prints it.\<close>

fun str_nat :: "nat \<Rightarrow> string" where
  "str_nat n =
     (if n < 10 then [char_of (48 + n)] else str_nat (n div 10) @ [char_of (48 + n mod 10)])"

definition str_int :: "int \<Rightarrow> string" where
  "str_int i = (if i < 0 then CHR ''-'' # str_nat (nat (- i)) else str_nat (nat i))"

fun format_value :: "pyval \<Rightarrow> string" where
  "format_value PyNone = ''None''"
| "format_value (PyStr s) = s"
| "format_value (PyInt i) = str_int i"

text \<open>
  \<^verbatim>\<open>int(x)\<close>: \<^verbatim>\<open>TypeError\<close> on \<^verbatim>\<open>None\<close>. On ASCII text the whitespace that \<^verbatim>\<open>int\<close> skips on
  both sides is the codes 9 to 13 and 32 only; then one sign is allowed, then decimal
  digits with single underscores between digits; more than 4300 digits are refused
  (the default of \<^verbatim>\<open>sys.set_int_max_str_digits\<close>); anything else is a \<^verbatim>\<open>ValueError\<close>. Text
  with a character outside ASCII is a \<^verbatim>\<open>ValueError\<close> here: the digits and the whitespace of
  other scripts, which \<^verbatim>\<open>int\<close> also reads, are left out.
\<close>

definition is_int_space :: "char \<Rightarrow> bool" where
  "is_int_space c = (let n = (of_char c :: nat) in (9 \<le> n \<and> n \<le> 13) \<or> n = 32)"

definition int_strip :: "string \<Rightarrow> string" where
  "int_strip s = rev (dropWhile is_int_space (rev (dropWhile is_int_space s)))"

definition is_digit :: "char \<Rightarrow> bool" where
  "is_digit c = (let n = (of_char c :: nat) in 48 \<le> n \<and> n \<le> 57)"

definition digit_val :: "char \<Rightarrow> nat" where
  "digit_val c = of_char c - 48"

fun parse_digits :: "nat \<Rightarrow> string \<Rightarrow> nat option" where
  "parse_digits acc [] = Some acc"
| "parse_digits acc (c # cs) =
     (if is_digit c then parse_digits (acc * 10 + digit_val c) cs
      else if c = CHR ''_'' \<and> cs \<noteq> [] \<and> is_digit (hd cs) then parse_digits acc cs
      else None)"

definition max_str_digits :: nat where
  "max_str_digits = 4300"

definition parse_nat :: "string \<Rightarrow> nat option" where
  "parse_nat s =
     (case s of [] \<Rightarrow> None
      | c # cs \<Rightarrow>
          if is_digit c \<and> length (filter is_digit s) \<le> max_str_digits
          then parse_digits (digit_val c) cs else None)"

definition int_of_text :: "string \<Rightarrow> error + int" where
  "int_of_text s =
     (let t = int_strip s in
      case t of
        [] \<Rightarrow> Inl ValueError
      | c # cs \<Rightarrow>
          if c = CHR ''-'' then
            (case parse_nat cs of None \<Rightarrow> Inl ValueError | Some n \<Rightarrow> Inr (- int n))
          else if c = CHR ''+'' then
            (case parse_nat cs of None \<Rightarrow> Inl ValueError | Some n \<Rightarrow> Inr (int n))
          else
            (case parse_nat t of None \<Rightarrow> Inl ValueError | Some n \<Rightarrow> Inr (int n)))"

fun py_int :: "pyval \<Rightarrow> error + int" where
  "py_int PyNone = Inl TypeError"
| "py_int (PyInt i) = Inr i"
| "py_int (PyStr s) = int_of_text s"

section \<open>Fields: the name and value list\<close>

text \<open>The attribute \<^verbatim>\<open>_list\<close> of a \<^verbatim>\<open>Fields\<close> object: name and value pairs, in order.\<close>

type_synonym field_list = "(string \<times> pyval) list"

text \<open>\<^verbatim>\<open>Fields.__getitem__\<close>: the first value under the name; the loop that ends without a
  match falls off the function, which returns \<^verbatim>\<open>None\<close>.\<close>

fun Fields_getitem :: "field_list \<Rightarrow> string \<Rightarrow> pyval" where
  "Fields_getitem [] name = PyNone"
| "Fields_getitem ((k, v) # rest) name =
     (if lower k = lower name then v else Fields_getitem rest name)"

text \<open>\<^verbatim>\<open>Fields.index\<close>: the position of the first occurrence, or \<^verbatim>\<open>KeyError\<close>.\<close>

fun Fields_index :: "field_list \<Rightarrow> string \<Rightarrow> error + nat" where
  "Fields_index [] name = Inl KeyError"
| "Fields_index ((k, v) # rest) name =
     (if lower k = lower name then Inr 0
      else (case Fields_index rest name of Inl e \<Rightarrow> Inl e | Inr i \<Rightarrow> Inr (Suc i)))"

text \<open>\<^verbatim>\<open>Fields.__delitem__\<close>: keep the pairs whose name differs.\<close>

definition Fields_delitem :: "field_list \<Rightarrow> string \<Rightarrow> field_list" where
  "Fields_delitem flds name = filter (\<lambda>x. lower (fst x) \<noteq> lower name) flds"

text \<open>\<^verbatim>\<open>list.insert(i, x)\<close> for an index that is not negative: past the end it appends.\<close>

definition list_insert :: "nat \<Rightarrow> 'a \<Rightarrow> 'a list \<Rightarrow> 'a list" where
  "list_insert i x xs = take i xs @ x # drop i xs"

text \<open>\<^verbatim>\<open>Fields.__setitem__\<close>: \<^verbatim>\<open>try: index ... except KeyError: append ... else: del; insert\<close>.\<close>

definition Fields_setitem :: "field_list \<Rightarrow> string \<Rightarrow> pyval \<Rightarrow> field_list" where
  "Fields_setitem flds name val =
     (case Fields_index flds name of
        Inl e \<Rightarrow> flds @ [(name, val)]
      | Inr i \<Rightarrow> list_insert i (name, val) (Fields_delitem flds name))"

definition Fields_add :: "field_list \<Rightarrow> string \<Rightarrow> pyval \<Rightarrow> field_list" where
  "Fields_add flds name val = flds @ [(name, val)]"

text \<open>
  \<^verbatim>\<open>Fields.get\<close>: \<^verbatim>\<open>try: return self[name] except KeyError: return default\<close>. The body of
  the \<^verbatim>\<open>try\<close> is the lookup above, which returns on every input.
\<close>

definition Fields_getitem_try :: "field_list \<Rightarrow> string \<Rightarrow> error + pyval" where
  "Fields_getitem_try flds name = Inr (Fields_getitem flds name)"

definition Fields_get :: "field_list \<Rightarrow> string \<Rightarrow> pyval \<Rightarrow> error + pyval" where
  "Fields_get flds name dflt =
     (case Fields_getitem_try flds name of
        Inl e \<Rightarrow> (if e = KeyError then Inr dflt else Inl e)
      | Inr v \<Rightarrow> Inr v)"

text \<open>\<^verbatim>\<open>Fields.get_list\<close>: \<^verbatim>\<open>list([x for x in self._list if x[0].lower() == name.lower()])\<close>;
  the comprehension collects the elements \<open>x\<close> of the list, which are pairs.\<close>

definition Fields_get_list :: "field_list \<Rightarrow> string \<Rightarrow> (string \<times> pyval) list" where
  "Fields_get_list flds name = filter (\<lambda>x. lower (fst x) = lower name) flds"

definition Fields_count :: "field_list \<Rightarrow> string \<Rightarrow> nat" where
  "Fields_count flds name = length (Fields_get_list flds name)"

definition Fields_contains :: "field_list \<Rightarrow> string \<Rightarrow> bool" where
  "Fields_contains flds name = (Fields_getitem flds name \<noteq> PyNone)"

text \<open>\<^verbatim>\<open>Fields.iter_str\<close>: the pieces yielded, two for each pair; \<^verbatim>\<open>__str__\<close> joins them, and
  \<^verbatim>\<open>__bytes__\<close> joins their encodings.\<close>

fun Fields_iter_str :: "field_list \<Rightarrow> string list" where
  "Fields_iter_str [] = []"
| "Fields_iter_str ((name, val) # rest) =
     (name @ '': '' @ format_value val) # NEWLINE # Fields_iter_str rest"

definition Fields_str :: "field_list \<Rightarrow> string" where
  "Fields_str flds = concat (Fields_iter_str flds)"

text \<open>\<^verbatim>\<open>re.split(newline, s)\<close> for the pattern \<^verbatim>\<open>'\\r\\n'\<close>: the text between the matches, found
  from the left; \<open>cur\<close> is the piece being collected.\<close>

fun re_split_acc :: "string \<Rightarrow> string \<Rightarrow> string list" where
  "re_split_acc cur [] = [cur]"
| "re_split_acc cur [c] = [cur @ [c]]"
| "re_split_acc cur (c # d # cs) =
     (if c = CR \<and> d = LF then cur # re_split_acc [] cs
      else re_split_acc (cur @ [c]) (d # cs))"

definition re_split_newline :: "string \<Rightarrow> string list" where
  "re_split_newline s = re_split_acc [] s"

text \<open>\<^verbatim>\<open>s.split(NEWLINE, 1)\<close> unpacked into two names: \<open>None\<close> stands for the one-element
  result, on which the unpacking raises \<^verbatim>\<open>ValueError\<close>.\<close>

fun split_newline1 :: "string \<Rightarrow> (string \<times> string) option" where
  "split_newline1 [] = None"
| "split_newline1 [c] = None"
| "split_newline1 (c # d # cs) =
     (if c = CR \<and> d = LF then Some ([], cs)
      else (case split_newline1 (d # cs) of
              None \<Rightarrow> None
            | Some (a, b) \<Rightarrow> Some (c # a, b)))"

text \<open>\<^verbatim>\<open>line.split(':', 1)\<close> unpacked into \<^verbatim>\<open>name, value\<close>.\<close>

fun split_colon :: "string \<Rightarrow> (string \<times> string) option" where
  "split_colon [] = None"
| "split_colon (c # cs) =
     (if c = CHR '':'' then Some ([], cs)
      else (case split_colon cs of
              None \<Rightarrow> None
            | Some (a, b) \<Rightarrow> Some (c # a, b)))"

text \<open>\<^verbatim>\<open>Fields.join_multilines\<close>: the value with its continuation lines, and the lines left
  in the queue.\<close>

fun join_multilines :: "string \<Rightarrow> string list \<Rightarrow> string \<times> string list" where
  "join_multilines val [] = (val, [])"
| "join_multilines val (line # lines) =
     (case line of
        [] \<Rightarrow> (val, lines)
      | c # cs \<Rightarrow>
          if c \<noteq> CHR '' '' \<and> c \<noteq> CHR 0x09 then (val, line # lines)
          else join_multilines (val @ cs) lines)"

lemma join_multilines_length:
  "length (snd (join_multilines val lines)) \<le> length lines"
proof (induction val lines rule: join_multilines.induct)
  case (1 val)
  show ?case by simp
next
  case (2 val line lines)
  show ?case
  proof (cases line)
    case Nil
    then show ?thesis by simp
  next
    case (Cons c cs)
    show ?thesis
    proof (cases "c \<noteq> CHR '' '' \<and> c \<noteq> CHR 0x09")
      case True
      with Cons show ?thesis by simp
    next
      case False
      with Cons 2 have "length (snd (join_multilines (val @ cs) lines)) \<le> length lines"
        by blast
      with Cons False show ?thesis by simp
    qed
  qed
qed

text \<open>The \<^verbatim>\<open>while len(lines)\<close> loop of \<^verbatim>\<open>Fields.parse\<close>, on the fields collected so far and
  the queue of lines.\<close>

function parse_loop :: "field_list \<Rightarrow> string list \<Rightarrow> error + field_list" where
  "parse_loop flds [] = Inr flds"
| "parse_loop flds (line # lines) =
     (if line = [] then parse_loop flds lines
      else (case split_colon line of
              None \<Rightarrow> Inl ValueError
            | Some (name, val) \<Rightarrow>
                parse_loop
                  (Fields_add flds name (PyStr (fst (join_multilines (lstrip val) lines))))
                  (snd (join_multilines (lstrip val) lines))))"
  by pat_completeness auto
termination
proof (relation "measure (\<lambda>(flds, lines). length lines)")
  show "wf (measure (\<lambda>(flds, lines). length lines))"
    by simp
next
  fix flds :: field_list and line :: string and lines :: "string list"
  show "((flds, lines), (flds, line # lines)) \<in> measure (\<lambda>(flds, lines). length lines)"
    by simp
next
  fix flds :: field_list and line :: string and lines :: "string list"
    and x2 :: "string \<times> string" and x y :: string
  have "length (snd (join_multilines (lstrip y) lines)) \<le> length lines"
    by (rule join_multilines_length)
  then show "((Fields_add flds x (PyStr (fst (join_multilines (lstrip y) lines))),
               snd (join_multilines (lstrip y) lines)), (flds, line # lines))
             \<in> measure (\<lambda>(flds, lines). length lines)"
    by (simp add: less_Suc_eq_le)
qed

definition Fields_parse :: "string \<Rightarrow> error + field_list" where
  "Fields_parse s = parse_loop [] (re_split_newline s)"

text \<open>\<^verbatim>\<open>HTTPHeaders.parse\<close>: the first line is the status, the rest is parsed as fields.\<close>

definition HTTPHeaders_parse :: "string \<Rightarrow> error + (string \<times> field_list)" where
  "HTTPHeaders_parse s =
     (case split_newline1 s of
        None \<Rightarrow> Inl ValueError
      | Some (status, rest) \<Rightarrow>
          (case Fields_parse rest of
             Inl e \<Rightarrow> Inl e
           | Inr flds \<Rightarrow> Inr (status, [] @ flds)))"

section \<open>Header\<close>

record header =
  version :: string
  header_fields :: field_list

text \<open>\<^verbatim>\<open>Header.parse\<close>: the bytes are decoded, the text is split once at the first line
  terminator, the first line is tested, and the version is the slice \<^verbatim>\<open>version_line[5:]\<close>.\<close>

definition Header_parse :: "bytes \<Rightarrow> error + header" where
  "Header_parse b =
     (case decode b of
        Inl e \<Rightarrow> Inl e
      | Inr s \<Rightarrow>
          (case split_newline1 s of
             None \<Rightarrow> Inl ValueError
           | Some (version_line, field_str) \<Rightarrow>
               if \<not> startswith version_line ''WARC'' then Inl IOError
               else (case Fields_parse field_str of
                       Inl e \<Rightarrow> Inl e
                     | Inr flds \<Rightarrow>
                         Inr \<lparr>version = drop_chars 5 version_line, header_fields = flds\<rparr>)))"

section \<open>Field lists that keep their shape in text\<close>

text \<open>
  The conditions under which a field survives being written and read again: \<open>has_newline\<close> says
  that the line terminator occurs in a text; a plain name has no colon and no line terminator
  and does not begin with a space or a tab; a plain value is text with no line terminator
  that does not begin with whitespace.
\<close>

fun has_newline :: "string \<Rightarrow> bool" where
  "has_newline [] = False"
| "has_newline [c] = False"
| "has_newline (c # d # cs) = ((c = CR \<and> d = LF) \<or> has_newline (d # cs))"

definition plain_name :: "string \<Rightarrow> bool" where
  "plain_name n =
     (CHR '':'' \<notin> set n \<and> \<not> has_newline n \<and>
      (case n of [] \<Rightarrow> True | c # cs \<Rightarrow> c \<noteq> CHR '' '' \<and> c \<noteq> CHR 0x09))"

definition plain_value :: "pyval \<Rightarrow> bool" where
  "plain_value v =
     (case v of
        PyStr s \<Rightarrow> \<not> has_newline s \<and> space_len s = 0
      | _ \<Rightarrow> False)"

definition plain_field :: "string \<times> pyval \<Rightarrow> bool" where
  "plain_field p = (plain_name (fst p) \<and> plain_value (snd p))"

section \<open>File objects\<close>

text \<open>
  A binary file opened for reading, as \<^verbatim>\<open>open(filename, 'rb')\<close> returns it: the bytes of the
  file and the current position. \<^verbatim>\<open>read(n)\<close> returns at most \<open>n\<close> bytes and advances past
  them, \<^verbatim>\<open>read(-1)\<close> returns everything left, a more negative size is a \<^verbatim>\<open>ValueError\<close>;
  \<^verbatim>\<open>seek\<close> to a negative position fails with \<^verbatim>\<open>OSError\<close>, of which \<^verbatim>\<open>IOError\<close> is an alias, and
  a position past the end is allowed; \<^verbatim>\<open>peek\<close> does not move the position (the model returns
  the next \<open>n\<close> bytes; the source only tests whether the result is empty).
\<close>

record file_obj =
  content :: bytes
  pos :: nat

definition file_tell :: "file_obj \<Rightarrow> nat" where
  "file_tell f = pos f"

definition file_read :: "file_obj \<Rightarrow> int \<Rightarrow> error + (bytes \<times> file_obj)" where
  "file_read f n =
     (if n < - 1 then Inl ValueError
      else
        (let data = (if n = - 1 then drop (pos f) (content f)
                     else take (nat n) (drop (pos f) (content f)))
         in Inr (data, f\<lparr>pos := pos f + length data\<rparr>)))"

definition file_seek :: "file_obj \<Rightarrow> int \<Rightarrow> error + file_obj" where
  "file_seek f p = (if p < 0 then Inl IOError else Inr (f\<lparr>pos := nat p\<rparr>))"

definition file_peek :: "file_obj \<Rightarrow> nat \<Rightarrow> bytes" where
  "file_peek f n = take n (drop (pos f) (content f))"

text \<open>\<^verbatim>\<open>bytes.find\<close>: the index of the first occurrence of the pattern.\<close>

fun find_sub :: "bytes \<Rightarrow> bytes \<Rightarrow> nat option" where
  "find_sub pat [] = (if pat = [] then Some 0 else None)"
| "find_sub pat (c # cs) =
     (if startswith (c # cs) pat then Some 0
      else (case find_sub pat cs of None \<Rightarrow> None | Some i \<Rightarrow> Some (Suc i)))"

text \<open>
  Modelled from the spec: \<^verbatim>\<open>util.find_file_pattern\<close> is called by the source and is not part
  of it. The spec says that it scans forward from the current position for the pattern,
  bounded by the limit when one is given, and that a search with no match inside the bound
  fails (the source catches \<^verbatim>\<open>ValueError\<close>); with \<^verbatim>\<open>inclusive\<close> the result is the offset of the
  end of the match, so that reading that many bytes reads the pattern too. The position of
  the file is the same before and after.
\<close>

definition find_file_pattern ::
  "file_obj \<Rightarrow> bytes \<Rightarrow> int option \<Rightarrow> bool \<Rightarrow> error + nat" where
  "find_file_pattern f pattern limit inclusive =
     (let rest = drop (pos f) (content f);
          window = (case limit of None \<Rightarrow> rest | Some l \<Rightarrow> take (nat l) rest)
      in case find_sub pattern window of
           None \<Rightarrow> Inl ValueError
         | Some i \<Rightarrow> Inr (if inclusive then i + length pattern else i))"

section \<open>BinaryFileRef\<close>

text \<open>The reference set by \<^verbatim>\<open>set_source_file\<close>: an offset and a length, \<open>None\<close> for "to the end".
  The file itself is passed where the bytes are read.\<close>

record file_ref =
  file_offset :: nat
  length_ref :: "int option"

text \<open>What a generator did: the chunks it yielded, the error that ended it if one did, and
  the file object as it left it.\<close>

record iter_result =
  yielded :: "bytes list"
  raised :: "error option"
  file_after :: file_obj

lemma file_read_Inr:
  assumes "file_read f n = Inr (data, f')"
  shows "- 1 \<le> n"
    and "data = (if n = - 1 then drop (pos f) (content f)
                 else take (nat n) (drop (pos f) (content f)))"
    and "f' = f\<lparr>pos := pos f + length data\<rparr>"
  using assms unfolding file_read_def Let_def by (auto split: if_splits)

lemma file_read_shorter:
  assumes "file_read f n = Inr (data, f')" and "data \<noteq> []"
  shows "length (content f') - pos f' < length (content f) - pos f"
proof -
  note d = file_read_Inr(2)[OF assms(1)] and f' = file_read_Inr(3)[OF assms(1)]
  from d have le: "length data \<le> length (content f) - pos f"
    by (simp split: if_splits)
  from assms(2) have pl: "1 \<le> length data" by (cases data) simp_all
  have "length (content f) - (pos f + length data) < length (content f) - pos f"
    using le pl by arith
  with f' show ?thesis by simp
qed

text \<open>The \<^verbatim>\<open>while True\<close> loop of \<^verbatim>\<open>iter_bytes_over_source_file\<close>; \<open>out\<close> collects the chunks
  yielded so far.\<close>

function iter_loop ::
  "int option \<Rightarrow> file_obj \<Rightarrow> int \<Rightarrow> bytes list \<Rightarrow> iter_result" where
  "iter_loop len f bytes_read out =
     (let n = (case len of Some l \<Rightarrow> min 4096 (l - bytes_read) | None \<Rightarrow> 4096) in
      case file_read f n of
        Inl e \<Rightarrow> \<lparr>yielded = out, raised = Some e, file_after = f\<rparr>
      | Inr r \<Rightarrow>
          if fst r = [] \<or> n = 0 then \<lparr>yielded = out, raised = None, file_after = snd r\<rparr>
          else iter_loop len (snd r) (bytes_read + int (length (fst r))) (out @ [fst r]))"
  by pat_completeness auto
termination
proof (relation "measure (\<lambda>(len, f, bytes_read, out). length (content f) - pos f)")
  show "wf (measure (\<lambda>(len, f, bytes_read, out). length (content f) - pos f))"
    by simp
next
  fix len :: "int option" and f :: file_obj and bytes_read :: int and out :: "bytes list"
    and x :: int and xa :: "bytes \<times> file_obj"
  assume r: "file_read f x = Inr xa" and c: "\<not> (fst xa = [] \<or> x = 0)"
  from r have "file_read f x = Inr (fst xa, snd xa)" by simp
  from file_read_shorter[OF this] c
  show "((len, snd xa, bytes_read + int (length (fst xa)), out @ [fst xa]),
          (len, f, bytes_read, out))
        \<in> measure (\<lambda>(len, f, bytes_read, out). length (content f) - pos f)"
    by simp
qed

declare iter_loop.simps [simp del]

text \<open>\<^verbatim>\<open>BinaryFileRef.iter_bytes_over_source_file\<close>, on the file object that the cache or
  \<^verbatim>\<open>open\<close> gives for the file name: seek when the offset is not zero, then the loop.\<close>

definition iter_bytes_over_source_file :: "file_ref \<Rightarrow> file_obj \<Rightarrow> iter_result" where
  "iter_bytes_over_source_file ref fobj =
     (if file_offset ref \<noteq> 0 then
        (case file_seek fobj (int (file_offset ref)) of
           Inl e \<Rightarrow> \<lparr>yielded = [], raised = Some e, file_after = fobj\<rparr>
         | Inr f \<Rightarrow> iter_loop (length_ref ref) f 0 [])
      else iter_loop (length_ref ref) fobj 0 [])"

section \<open>Content blocks\<close>

text \<open>A \<^verbatim>\<open>Fields\<close> object or an \<^verbatim>\<open>HTTPHeaders\<close> object, which adds the status line; and the two
  classes themselves, as \<^verbatim>\<open>BlockWithPayload.load\<close> receives one in \<^verbatim>\<open>field_cls\<close>.\<close>

datatype fields_obj = Fields field_list | HTTPHeaders string field_list

datatype field_cls = Fields_cls | HTTPHeaders_cls

fun field_cls_parse :: "field_cls \<Rightarrow> string \<Rightarrow> error + fields_obj" where
  "field_cls_parse Fields_cls s =
     (case Fields_parse s of Inl e \<Rightarrow> Inl e | Inr flds \<Rightarrow> Inr (Fields flds))"
| "field_cls_parse HTTPHeaders_cls s =
     (case HTTPHeaders_parse s of
        Inl e \<Rightarrow> Inl e
      | Inr (status, flds) \<Rightarrow> Inr (HTTPHeaders status flds))"

text \<open>\<^verbatim>\<open>iter_str\<close> joined, for either class: \<^verbatim>\<open>HTTPHeaders.iter_str\<close> yields the status and a
  line terminator first; \<^verbatim>\<open>bytes(fields)\<close> is its encoding.\<close>

fun fields_obj_str :: "fields_obj \<Rightarrow> string" where
  "fields_obj_str (Fields flds) = Fields_str flds"
| "fields_obj_str (HTTPHeaders status flds) = status @ NEWLINE @ Fields_str flds"

definition fields_obj_bytes :: "fields_obj \<Rightarrow> bytes" where
  "fields_obj_bytes fo = encode (fields_obj_str fo)"

datatype content_block = BinaryBlock file_ref | BlockWithPayload fields_obj file_ref

text \<open>\<^verbatim>\<open>BinaryBlock.load\<close>.\<close>

definition BinaryBlock_load :: "file_obj \<Rightarrow> int \<Rightarrow> error + (content_block \<times> file_obj)" where
  "BinaryBlock_load f len =
     (let binary_block = \<lparr>file_offset = file_tell f, length_ref = Some len\<rparr> in
      case file_seek f (int (file_tell f) + len) of
        Inl e \<Rightarrow> Inl e
      | Inr f' \<Rightarrow> Inr (BinaryBlock binary_block, f'))"

text \<open>\<^verbatim>\<open>BlockWithPayload.load\<close>: a search that fails with \<^verbatim>\<open>ValueError\<close> makes the whole length
  the field length; the bytes read are decoded and the text is parsed.\<close>

definition BlockWithPayload_load ::
  "file_obj \<Rightarrow> int \<Rightarrow> field_cls \<Rightarrow> error + (content_block \<times> file_obj)" where
  "BlockWithPayload_load f len cls =
     (case (case find_file_pattern f FIELD_DELIM_BYTES (Some len) True of
              Inl e \<Rightarrow> (if is_ValueError e then Inr len else Inl e)
            | Inr n \<Rightarrow> Inr (int n)) of
        Inl e \<Rightarrow> Inl e
      | Inr field_length \<Rightarrow>
          (case file_read f field_length of
             Inl e \<Rightarrow> Inl e
           | Inr (data, f1) \<Rightarrow>
               (case decode data of
                  Inl e \<Rightarrow> Inl e
                | Inr s \<Rightarrow>
                    (case field_cls_parse cls s of
                       Inl e \<Rightarrow> Inl e
                     | Inr flds \<Rightarrow>
                         (let payload_length = len - field_length;
                              payload = \<lparr>file_offset = file_tell f1,
                                         length_ref = Some payload_length\<rparr>
                          in case file_seek f1 (int (file_tell f1) + payload_length) of
                               Inl e \<Rightarrow> Inl e
                             | Inr f2 \<Rightarrow> Inr (BlockWithPayload flds payload, f2))))))"

text \<open>The attribute \<^verbatim>\<open>length\<close> of a content block: the bound length of a \<^verbatim>\<open>BinaryBlock\<close>, the
  property \<^verbatim>\<open>BlockWithPayload.length\<close> otherwise. Adding \<^verbatim>\<open>None\<close> is a \<^verbatim>\<open>TypeError\<close>.\<close>

fun content_block_length :: "content_block \<Rightarrow> error + int" where
  "content_block_length (BinaryBlock r) =
     (case length_ref r of None \<Rightarrow> Inl TypeError | Some l \<Rightarrow> Inr l)"
| "content_block_length (BlockWithPayload flds payload) =
     (case length_ref payload of
        None \<Rightarrow> Inl TypeError
      | Some l \<Rightarrow> Inr (int (length (fields_obj_bytes flds)) + int (length NEWLINE_BYTES) + l))"

section \<open>Record\<close>

record warc_record =
  header :: header
  content_block :: content_block
  record_file_offset :: nat

text \<open>The property \<^verbatim>\<open>content_length\<close> and its setter.\<close>

definition content_length :: "header \<Rightarrow> error + int" where
  "content_length hdr = py_int (Fields_getitem (header_fields hdr) ''Content-Length'')"

definition set_content_length :: "header \<Rightarrow> int \<Rightarrow> header" where
  "set_content_length hdr i =
     hdr\<lparr>header_fields := Fields_setitem (header_fields hdr) ''Content-Length'' (PyInt i)\<rparr>"

text \<open>Truth of a value, and \<^verbatim>\<open>value.startswith(prefix)\<close>, which only text has.\<close>

fun truthy :: "pyval \<Rightarrow> bool" where
  "truthy PyNone = False"
| "truthy (PyStr s) = (s \<noteq> [])"
| "truthy (PyInt i) = (i \<noteq> 0)"

fun py_startswith :: "pyval \<Rightarrow> string \<Rightarrow> error + bool" where
  "py_startswith (PyStr s) p = Inr (startswith s p)"
| "py_startswith v p = Inl AttributeError"

text \<open>
  The content type that selects the HTTP field list: text that starts with
  \<^verbatim>\<open>application/http\<close>.
\<close>

definition is_http_type :: "pyval \<Rightarrow> bool" where
  "is_http_type v = (case v of PyStr s \<Rightarrow> startswith s ''application/http'' | _ \<Rightarrow> False)"

text \<open>The warnings that \<^verbatim>\<open>Record.load\<close> logs; debug and info messages are left out.\<close>

datatype log_record = Length_changed int int

text \<open>
  \<^verbatim>\<open>Record.load\<close> in its three steps. First the header: find the end of the header block,
  read and parse it, take the declared length from it.
\<close>

definition Record_load_header :: "file_obj \<Rightarrow> error + (header \<times> int \<times> file_obj)" where
  "Record_load_header f =
     (case find_file_pattern f FIELD_DELIM_BYTES None True of
        Inl e \<Rightarrow> Inl e
      | Inr header_length \<Rightarrow>
          (case file_read f (int header_length) of
             Inl e \<Rightarrow> Inl e
           | Inr (data, f1) \<Rightarrow>
               (case Header_parse data of
                  Inl e \<Rightarrow> Inl e
                | Inr hdr \<Rightarrow>
                    (case content_length hdr of
                       Inl e \<Rightarrow> Inl e
                     | Inr block_length \<Rightarrow> Inr (hdr, block_length, f1)))))"

text \<open>Then the content block, chosen by \<^verbatim>\<open>preserve_block\<close> and the content type.\<close>

definition Record_load_block ::
  "file_obj \<Rightarrow> header \<Rightarrow> int \<Rightarrow> bool \<Rightarrow> error + (content_block \<times> file_obj)" where
  "Record_load_block f hdr block_length preserve_block =
     (case Fields_get (header_fields hdr) ''content-type'' PyNone of
        Inl e \<Rightarrow> Inl e
      | Inr content_type \<Rightarrow>
          (case (if \<not> preserve_block \<and> truthy content_type
                 then py_startswith content_type ''application/http''
                 else Inr False) of
             Inl e \<Rightarrow> Inl e
           | Inr is_http \<Rightarrow>
               if is_http then BlockWithPayload_load f block_length HTTPHeaders_cls
               else if \<not> preserve_block \<and> content_type = PyStr ''application/warc-fields''
               then BlockWithPayload_load f block_length Fields_cls
               else BinaryBlock_load f block_length))"

text \<open>Last the comparison of the declared length with the length of the block.\<close>

definition Record_load_reconcile ::
  "header \<Rightarrow> int \<Rightarrow> content_block \<Rightarrow> error + (header \<times> log_record list)" where
  "Record_load_reconcile hdr block_length block =
     (case content_block_length block of
        Inl e \<Rightarrow> Inl e
      | Inr new_content_length \<Rightarrow>
          if block_length \<noteq> new_content_length then
            (case content_length hdr of
               Inl e \<Rightarrow> Inl e
             | Inr old \<Rightarrow>
                 Inr (set_content_length hdr new_content_length,
                      [Length_changed old new_content_length]))
          else Inr (hdr, []))"

definition Record_load ::
  "file_obj \<Rightarrow> bool \<Rightarrow> error + (warc_record \<times> file_obj \<times> log_record list)" where
  "Record_load f preserve_block =
     (case Record_load_header f of
        Inl e \<Rightarrow> Inl e
      | Inr (hdr, block_length, f1) \<Rightarrow>
          (case Record_load_block f1 hdr block_length preserve_block of
             Inl e \<Rightarrow> Inl e
           | Inr (block, f2) \<Rightarrow>
               (case Record_load_reconcile hdr block_length block of
                  Inl e \<Rightarrow> Inl e
                | Inr (hdr', warnings) \<Rightarrow>
                    Inr (\<lparr>header = hdr', content_block = block,
                          record_file_offset = file_tell f\<rparr>, f2, warnings))))"

section \<open>WARC\<close>

text \<open>\<^verbatim>\<open>WARC.read_record\<close>: the record, whether more records follow, the file object after the
  delimiter, and the warnings.\<close>

definition WARC_read_record ::
  "file_obj \<Rightarrow> bool \<Rightarrow> error + ((warc_record \<times> bool) \<times> file_obj \<times> log_record list)" where
  "WARC_read_record f preserve_block =
     (case Record_load f preserve_block of
        Inl e \<Rightarrow> Inl e
      | Inr (record, f1, warnings) \<Rightarrow>
          (case file_read f1 (int (length FIELD_DELIM_BYTES)) of
             Inl e \<Rightarrow> Inl e
           | Inr (data, f2) \<Rightarrow>
               if data \<noteq> FIELD_DELIM_BYTES then Inl IOError
               else if file_peek f2 1 = [] then Inr ((record, False), f2, warnings)
               else Inr ((record, True), f2, warnings)))"

section \<open>A sample file\<close>

text \<open>
  One record of type \<^verbatim>\<open>application/warc-fields\<close> whose header declares a block of 12 bytes:
  the field \<^verbatim>\<open>k\<close> written with two spaces after the colon, an empty line and the payload
  \<^verbatim>\<open>pay\<close>; then the header as parsed, and the record that \<^verbatim>\<open>Record.load\<close> returns.
\<close>

definition warcfields_file :: file_obj where
  "warcfields_file =
     \<lparr>content = ''WARC/1.0'' @ NEWLINE @ ''Content-Type: application/warc-fields'' @ NEWLINE
        @ ''Content-Length: 12'' @ NEWLINE @ NEWLINE
        @ ''k:  v'' @ NEWLINE @ NEWLINE @ ''pay'' @ NEWLINE @ NEWLINE,
      pos = 0\<rparr>"

definition warcfields_header :: header where
  "warcfields_header =
     \<lparr>version = ''1.0'',
      header_fields = [(''Content-Type'', PyStr ''application/warc-fields''),
                       (''Content-Length'', PyStr ''12'')]\<rparr>"

definition warcfields_record :: warc_record where
  "warcfields_record =
     \<lparr>header = \<lparr>version = ''1.0'',
                header_fields = [(''Content-Type'', PyStr ''application/warc-fields''),
                                 (''Content-Length'', PyInt 11)]\<rparr>,
      content_block = BlockWithPayload (Fields [(''k'', PyStr ''v'')])
                        \<lparr>file_offset = 80, length_ref = Some 3\<rparr>,
      record_file_offset = 0\<rparr>"

section \<open>Properties of the field list\<close>

lemma Fields_getitem_absent:
  "\<forall>x \<in> set flds. lower (fst x) \<noteq> lower name \<Longrightarrow> Fields_getitem flds name = PyNone"
  by (induction flds) auto

text \<open>
  Claim C10: for a name with no case-insensitive match in the list, \<^verbatim>\<open>Fields.get(name, default)\<close>
  returns \<^verbatim>\<open>None\<close> whatever the default is: the lookup returns \<^verbatim>\<open>None\<close> instead of raising the
  \<^verbatim>\<open>KeyError\<close> that \<^verbatim>\<open>get\<close> catches.
\<close>

theorem C10_get_absent_returns_None:
  assumes "\<forall>x \<in> set flds. lower (fst x) \<noteq> lower name"
  shows "Fields_get flds name dflt = Inr PyNone"
  using assms by (simp add: Fields_get_def Fields_getitem_try_def Fields_getitem_absent)

text \<open>The claim at a one-field list, a missing name and the default \<^verbatim>\<open>'fallback'\<close>.\<close>

theorem C10_get_absent_returns_None_witness:
  "Fields_get [(''Host'', PyStr ''example.org'')] ''Date'' (PyStr ''fallback'') = Inr PyNone"
proof -
  have h: "\<forall>x \<in> set [(''Host'', PyStr ''example.org'')]. lower (fst x) \<noteq> lower ''Date''"
    by code_simp
  show ?thesis
    by (rule C10_get_absent_returns_None [OF h])
qed

text \<open>
  Claim C5: \<^verbatim>\<open>Fields.get_list\<close> is documented to return the values stored under a name. On the
  list below the code returns the matching name and value pairs, in insertion order, not
  the values \<^verbatim>\<open>['a', 'c']\<close>.
\<close>

theorem C5_get_list_returns_pairs:
  "Fields_get_list [(''Host'', PyStr ''a''), (''Date'', PyStr ''b''), (''HOST'', PyStr ''c'')] ''host''
     = [(''Host'', PyStr ''a''), (''HOST'', PyStr ''c'')]"
  by code_simp

lemma Fields_index_Inr:
  "Fields_index flds name = Inr i \<Longrightarrow>
     i < length flds \<and> lower (fst (flds ! i)) = lower name \<and>
     (\<forall>x \<in> set (take i flds). lower (fst x) \<noteq> lower name)"
proof (induction flds arbitrary: i)
  case Nil
  then show ?case by simp
next
  case (Cons p rest)
  obtain k v where p: "p = (k, v)" by (cases p)
  show ?case
  proof (cases "lower k = lower name")
    case True
    with Cons.prems p have "i = 0" by simp
    with True p show ?thesis by simp
  next
    case False
    with Cons.prems p obtain j where j: "Fields_index rest name = Inr j" "i = Suc j"
      by (auto split: sum.splits)
    from Cons.IH[OF j(1)] False p j(2) show ?thesis
      by simp
  qed
qed

lemma Fields_getitem_append_nomatch:
  "\<forall>x \<in> set pre. lower (fst x) \<noteq> lower name \<Longrightarrow>
   Fields_getitem (pre @ post) name = Fields_getitem post name"
  by (induction pre) auto

lemma Fields_index_append_nomatch:
  "\<forall>x \<in> set pre. lower (fst x) \<noteq> lower name \<Longrightarrow>
   Fields_index (pre @ (k, v) # post) name = (if lower k = lower name then Inr (length pre) else
      (case Fields_index post name of Inl e \<Rightarrow> Inl e | Inr i \<Rightarrow> Inr (Suc (length pre + i))))"
  by (induction pre) (auto split: sum.splits)

lemma Fields_setitem_present:
  assumes "Fields_index flds name = Inr i"
  shows "Fields_setitem flds name val =
           take i flds @ (name, val) # Fields_delitem (drop (Suc i) flds) name"
proof -
  from Fields_index_Inr[OF assms] have i: "i < length flds"
    and at: "lower (fst (flds ! i)) = lower name"
    and pre: "\<forall>x \<in> set (take i flds). lower (fst x) \<noteq> lower name"
    by simp_all
  have split: "flds = take i flds @ flds ! i # drop (Suc i) flds"
    using i by (rule id_take_nth_drop)
  have "Fields_delitem flds name =
          Fields_delitem (take i flds @ flds ! i # drop (Suc i) flds) name"
    using split by simp
  also have "\<dots> = take i flds @ Fields_delitem (drop (Suc i) flds) name"
    using pre at by (simp add: Fields_delitem_def)
  finally have del: "Fields_delitem flds name =
      take i flds @ Fields_delitem (drop (Suc i) flds) name" .
  have len: "length (take i flds) = i" using i by simp
  have "list_insert i (name, val) (take i flds @ Fields_delitem (drop (Suc i) flds) name)
          = take i flds @ (name, val) # Fields_delitem (drop (Suc i) flds) name"
    unfolding list_insert_def using len by simp
  with assms del show ?thesis by (simp add: Fields_setitem_def)
qed

text \<open>
  Claim C7: when the name already occurs, with its first occurrence at index \<open>i\<close>,
  \<^verbatim>\<open>Fields.__setitem__\<close> keeps the \<open>i\<close> pairs before it, puts the new pair at index \<open>i\<close> and
  drops every later pair with that name, compared without case; the new pair is then the
  only one under the name, the other pairs keep their order, and a lookup under any name
  that differs from it only in case returns the value just set.
\<close>

theorem C7_setitem_replaces_at_first_index:
  assumes "Fields_index flds n1 = Inr i"
  shows "Fields_setitem flds n1 val =
           take i flds @ (n1, val) # Fields_delitem (drop (Suc i) flds) n1
         \<and> Fields_get_list (Fields_setitem flds n1 val) n1 = [(n1, val)]
         \<and> Fields_index (Fields_setitem flds n1 val) n1 = Inr i
         \<and> Fields_delitem (Fields_setitem flds n1 val) n1 = Fields_delitem flds n1
         \<and> (lower n2 = lower n1 \<longrightarrow> Fields_getitem (Fields_setitem flds n1 val) n2 = val)"
proof -
  let ?pre = "take i flds"
  let ?post = "Fields_delitem (drop (Suc i) flds) n1"
  from Fields_index_Inr[OF assms] have i: "i < length flds"
    and at: "lower (fst (flds ! i)) = lower n1"
    and pre: "\<forall>x \<in> set ?pre. lower (fst x) \<noteq> lower n1"
    by simp_all
  have s: "Fields_setitem flds n1 val = ?pre @ (n1, val) # ?post"
    by (rule Fields_setitem_present[OF assms])
  have post: "\<forall>x \<in> set ?post. lower (fst x) \<noteq> lower n1"
    by (simp add: Fields_delitem_def)
  have len: "length ?pre = i" using i by simp
  have g: "Fields_get_list (?pre @ (n1, val) # ?post) n1 = [(n1, val)]"
    using pre post by (simp add: Fields_get_list_def filter_empty_conv)
  have ix: "Fields_index (?pre @ (n1, val) # ?post) n1 = Inr i"
    using Fields_index_append_nomatch[OF pre, of n1 val ?post] len by simp
  have split: "flds = ?pre @ flds ! i # drop (Suc i) flds"
    using i by (rule id_take_nth_drop)
  have "Fields_delitem flds n1 = Fields_delitem (?pre @ flds ! i # drop (Suc i) flds) n1"
    using split by simp
  also have "\<dots> = Fields_delitem ?pre n1 @ ?post"
    using at by (simp add: Fields_delitem_def)
  finally have d0: "Fields_delitem flds n1 = Fields_delitem ?pre n1 @ ?post" .
  have d: "Fields_delitem (?pre @ (n1, val) # ?post) n1 = Fields_delitem flds n1"
    unfolding d0 by (simp add: Fields_delitem_def)
  have gi: "lower n2 = lower n1 \<longrightarrow> Fields_getitem (?pre @ (n1, val) # ?post) n2 = val"
  proof
    assume e: "lower n2 = lower n1"
    with pre have "\<forall>x \<in> set ?pre. lower (fst x) \<noteq> lower n2" by simp
    from Fields_getitem_append_nomatch[OF this] e
    show "Fields_getitem (?pre @ (n1, val) # ?post) n2 = val" by simp
  qed
  from s g ix d gi show ?thesis by simp
qed

text \<open>The claim on a list holding \<^verbatim>\<open>Host\<close> at index 1 and \<^verbatim>\<open>HOST\<close> at index 3.\<close>

theorem C7_setitem_replaces_at_first_index_witness:
  "Fields_setitem [(''A'', PyStr ''1''), (''Host'', PyStr ''a''), (''B'', PyStr ''2''),
                   (''HOST'', PyStr ''c'')] ''host'' (PyStr ''z'')
     = [(''A'', PyStr ''1''), (''host'', PyStr ''z''), (''B'', PyStr ''2'')]
   \<and> Fields_getitem (Fields_setitem [(''A'', PyStr ''1''), (''Host'', PyStr ''a''),
        (''B'', PyStr ''2''), (''HOST'', PyStr ''c'')] ''host'' (PyStr ''z'')) ''HoSt''
     = PyStr ''z''"
proof -
  let ?f = "[(''A'', PyStr ''1''), (''Host'', PyStr ''a''), (''B'', PyStr ''2''),
             (''HOST'', PyStr ''c'')]"
  have h: "Fields_index ?f ''host'' = Inr 1" by code_simp
  have e: "lower ''HoSt'' = lower ''host''" by code_simp
  have t: "take 1 ?f @ (''host'', PyStr ''z'') # Fields_delitem (drop (Suc 1) ?f) ''host''
             = [(''A'', PyStr ''1''), (''host'', PyStr ''z''), (''B'', PyStr ''2'')]"
    by code_simp
  note r = C7_setitem_replaces_at_first_index[OF h, of "PyStr ''z''" "''HoSt''"]
  have a: "Fields_setitem ?f ''host'' (PyStr ''z'')
             = [(''A'', PyStr ''1''), (''host'', PyStr ''z''), (''B'', PyStr ''2'')]"
    by (rule trans[OF r[THEN conjunct1] t])
  have b: "Fields_getitem (Fields_setitem ?f ''host'' (PyStr ''z'')) ''HoSt'' = PyStr ''z''"
    by (rule r[THEN conjunct2, THEN conjunct2, THEN conjunct2, THEN conjunct2, THEN mp, OF e])
  from a b show ?thesis by (rule conjI)
qed

section \<open>Writing a field list and reading it again\<close>

lemma re_split_acc_line:
  "\<not> has_newline l \<Longrightarrow>
   re_split_acc cur (l @ NEWLINE @ rest) = (cur @ l) # re_split_acc [] rest"
proof (induction l arbitrary: cur rule: has_newline.induct)
  case 1
  show ?case by (simp add: NEWLINE_def)
next
  case (2 c)
  show ?case by (simp add: NEWLINE_def CR_def LF_def)
next
  case (3 c d cs)
  from "3.prems" have nd: "\<not> (c = CR \<and> d = LF)" and nr: "\<not> has_newline (d # cs)"
    by simp_all
  have "re_split_acc cur ((c # d # cs) @ NEWLINE @ rest)
          = re_split_acc (cur @ [c]) ((d # cs) @ NEWLINE @ rest)"
    using nd by auto
  also have "\<dots> = ((cur @ [c]) @ (d # cs)) # re_split_acc [] rest"
    by (rule "3.IH"[OF nr])
  finally show ?case by simp
qed

lemma has_newline_space: "has_newline (CHR '' '' # s) = has_newline s"
  by (cases s) (simp_all add: CR_def)

lemma has_newline_line:
  "\<not> has_newline n \<Longrightarrow> \<not> has_newline s \<Longrightarrow> \<not> has_newline (n @ CHR '':'' # CHR '' '' # s)"
proof (induction n rule: has_newline.induct)
  case 1
  then show ?case by (simp add: has_newline_space CR_def)
next
  case (2 c)
  then show ?case by (simp add: has_newline_space CR_def LF_def)
next
  case (3 c d cs)
  then show ?case by simp
qed

lemma split_colon_line:
  "CHR '':'' \<notin> set n \<Longrightarrow> split_colon (n @ CHR '':'' # rest) = Some (n, rest)"
  by (induction n) auto

lemma lstrip_plain:
  assumes "space_len s = 0"
  shows "lstrip (CHR '' '' # s) = s"
proof -
  have one: "space_len (CHR '' '' # s) = 1"
    by (simp add: space_len_def is_space_def)
  have "lstrip (CHR '' '' # s) = lstrip s"
    by (subst lstrip.simps) (simp add: one)
  also have "\<dots> = s"
    by (subst lstrip.simps) (simp add: assms)
  finally show ?thesis .
qed

lemma Fields_str_Cons:
  "Fields_str ((n, v) # rest) = (n @ '': '' @ format_value v) @ NEWLINE @ Fields_str rest"
  by (simp add: Fields_str_def)

lemma Fields_str_Nil: "Fields_str [] = []"
  by (simp add: Fields_str_def)

lemma join_multilines_next:
  assumes "\<forall>p \<in> set rest. plain_field p"
  shows "join_multilines s (re_split_acc [] (Fields_str rest))
           = (s, if rest = [] then [] else re_split_acc [] (Fields_str rest))"
proof (cases rest)
  case Nil
  then show ?thesis by (simp add: Fields_str_Nil)
next
  case (Cons p rest')
  obtain n v where p: "p = (n, v)" by (cases p)
  from assms Cons p have pn: "plain_name n" and pv: "plain_value v"
    by (simp_all add: plain_field_def)
  from pv obtain t where v: "v = PyStr t" and nt: "\<not> has_newline t"
    by (cases v) (simp_all add: plain_value_def)
  from pn have nn: "\<not> has_newline n" by (simp add: plain_name_def)
  let ?line = "n @ CHR '':'' # CHR '' '' # t"
  have nl: "\<not> has_newline ?line" by (rule has_newline_line[OF nn nt])
  have sp: "re_split_acc [] (Fields_str rest) = ?line # re_split_acc [] (Fields_str rest')"
    using re_split_acc_line[OF nl, of "[]" "Fields_str rest'"] Cons p v
    by (simp add: Fields_str_Cons)
  have hd_ok: "\<exists>c cs. ?line = c # cs \<and> c \<noteq> CHR '' '' \<and> c \<noteq> CHR 0x09"
  proof (cases n)
    case Nil
    then show ?thesis by simp
  next
    case (Cons c cs)
    with pn show ?thesis by (simp add: plain_name_def)
  qed
  then obtain c cs where l: "?line = c # cs" and c: "c \<noteq> CHR '' ''" "c \<noteq> CHR 0x09"
    by blast
  have "join_multilines s (?line # re_split_acc [] (Fields_str rest'))
          = (s, ?line # re_split_acc [] (Fields_str rest'))"
    unfolding l using c by simp
  with sp Cons show ?thesis by simp
qed

lemma parse_loop_blank: "parse_loop acc [[]] = parse_loop acc []"
  by simp

lemma parse_loop_roundtrip:
  "\<forall>p \<in> set flds. plain_field p \<Longrightarrow>
   parse_loop acc (re_split_acc [] (Fields_str flds)) = Inr (acc @ flds)"
proof (induction flds arbitrary: acc)
  case Nil
  show ?case by (simp add: Fields_str_Nil)
next
  case (Cons p rest)
  obtain n v where p: "p = (n, v)" by (cases p)
  from Cons.prems p have pn: "plain_name n" and pv: "plain_value v"
    and pr: "\<forall>q \<in> set rest. plain_field q"
    by (simp_all add: plain_field_def)
  from pv obtain t where v: "v = PyStr t" and nt: "\<not> has_newline t"
    and ts: "space_len t = 0"
    by (cases v) (simp_all add: plain_value_def)
  from pn have nn: "\<not> has_newline n" and nc: "CHR '':'' \<notin> set n"
    by (simp_all add: plain_name_def)
  let ?line = "n @ CHR '':'' # CHR '' '' # t"
  let ?L = "re_split_acc [] (Fields_str rest)"
  have nl: "\<not> has_newline ?line" by (rule has_newline_line[OF nn nt])
  have sp: "re_split_acc [] (Fields_str (p # rest)) = ?line # ?L"
    using re_split_acc_line[OF nl, of "[]" "Fields_str rest"] p v
    by (simp add: Fields_str_Cons)
  have ne: "?line \<noteq> []" by simp
  have sc: "split_colon ?line = Some (n, CHR '' '' # t)"
    by (rule split_colon_line[OF nc])
  have ls: "lstrip (CHR '' '' # t) = t" by (rule lstrip_plain[OF ts])
  have jm: "join_multilines t ?L = (t, if rest = [] then [] else ?L)"
    by (rule join_multilines_next[OF pr])
  have step: "parse_loop acc (?line # ?L)
                = parse_loop (Fields_add acc n (PyStr t)) (if rest = [] then [] else ?L)"
    using ne sc ls jm by simp
  have "parse_loop (Fields_add acc n (PyStr t)) (if rest = [] then [] else ?L)
          = parse_loop (Fields_add acc n (PyStr t)) ?L"
    by (simp add: Fields_str_Nil)
  also have "\<dots> = Inr (Fields_add acc n (PyStr t) @ rest)"
    by (rule Cons.IH[OF pr])
  finally show ?case using sp step p v by (simp add: Fields_add_def)
qed

text \<open>
  Claim C6, as amended: for a field list in which every name is plain (no colon, no line
  terminator, no leading space or tab) and every value is plain text (no line terminator,
  no leading whitespace), \<^verbatim>\<open>Fields.parse\<close> applied to the text that \<^verbatim>\<open>Fields.iter_str\<close> produces
  gives back the same pairs in the same order.
\<close>

theorem C6_parse_iter_str_roundtrip:
  assumes "\<forall>p \<in> set flds. plain_field p"
  shows "Fields_parse (Fields_str flds) = Inr flds"
  using parse_loop_roundtrip[OF assms, of "[]"]
  by (simp add: Fields_parse_def re_split_newline_def)

text \<open>
  The amended claim C6 on a list of two header fields.
\<close>

theorem C6_parse_iter_str_roundtrip_witness:
  "Fields_parse (Fields_str [(''WARC-Type'', PyStr ''warcinfo''), (''Content-Length'', PyStr ''0'')])
     = Inr [(''WARC-Type'', PyStr ''warcinfo''), (''Content-Length'', PyStr ''0'')]"
proof -
  have h: "\<forall>p \<in> set [(''WARC-Type'', PyStr ''warcinfo''), (''Content-Length'', PyStr ''0'')].
             plain_field p"
    by code_simp
  show ?thesis by (rule C6_parse_iter_str_roundtrip[OF h])
qed

text \<open>
  Claim C6 as the specification states it asks only that names hold no colon and no newline.
  The list with the one pair \<^verbatim>\<open>('a', ' b')\<close> meets that, and reading its text back gives
  \<^verbatim>\<open>('a', 'b')\<close>: \<^verbatim>\<open>parse\<close> strips the whitespace that begins a value.
\<close>

theorem C6_roundtrip_counterexample:
  "CHR '':'' \<notin> set ''a'' \<and> CR \<notin> set ''a'' \<and> LF \<notin> set ''a'' \<and>
   Fields_parse (Fields_str [(''a'', PyStr '' b'')]) = Inr [(''a'', PyStr ''b'')] \<and>
   Fields_parse (Fields_str [(''a'', PyStr '' b'')]) \<noteq> Inr [(''a'', PyStr '' b'')]"
  by code_simp

text \<open>
  The other two conditions of the amended claim are needed as well: a line terminator inside
  a value starts a new field, and a name that begins with a space makes its line a
  continuation of the field before it. The whitespace that \<^verbatim>\<open>parse\<close> strips from a value is
  not only the space: a value that begins with U+00A0, encoded as 0xC2 0xA0, loses it too.
\<close>

lemma roundtrip_needs_value_without_newline:
  "Fields_parse (Fields_str [(''a'', PyStr [CHR ''b'', CR, LF, CHR ''c'', CHR '':'', CHR ''d''])])
     = Inr [(''a'', PyStr ''b''), (''c'', PyStr ''d'')]"
  by code_simp

lemma roundtrip_needs_name_without_leading_blank:
  "Fields_parse (Fields_str [(''a'', PyStr ''b''), ('' c'', PyStr ''d'')])
     = Inr [(''a'', PyStr ''bc: d'')]"
  by code_simp

lemma roundtrip_needs_value_without_leading_whitespace:
  "Fields_parse (Fields_str [(''a'', PyStr [CHR 0xC2, CHR 0xA0, CHR ''b''])])
     = Inr [(''a'', PyStr ''b'')]"
  by code_simp

section \<open>The version line of a header\<close>

lemma parse_loop_error: "parse_loop acc ls = Inl e \<Longrightarrow> e = ValueError"
proof (induction acc ls rule: parse_loop.induct)
  case (1 flds)
  then show ?case by simp
next
  case (2 flds line lines)
  show ?case
  proof (cases "line = []")
    case True
    with 2 show ?thesis by simp
  next
    case False
    show ?thesis
    proof (cases "split_colon line")
      case None
      with False "2.prems" show ?thesis by simp
    next
      case (Some nv)
      obtain name val where nv: "nv = (name, val)" by (cases nv)
      from "2.IH"(2)[OF False Some nv[symmetric]] "2.prems" False Some nv
      show ?thesis by simp
    qed
  qed
qed

lemma Fields_parse_error: "Fields_parse s = Inl e \<Longrightarrow> e = ValueError"
  unfolding Fields_parse_def by (rule parse_loop_error)

lemma split_newline1_line:
  "\<not> has_newline line \<Longrightarrow> split_newline1 (line @ NEWLINE @ rest) = Some (line, rest)"
proof (induction line rule: has_newline.induct)
  case 1
  show ?case by (simp add: NEWLINE_def)
next
  case (2 c)
  show ?case by (simp add: NEWLINE_def CR_def LF_def)
next
  case (3 c d cs)
  from "3.prems" have nd: "\<not> (c = CR \<and> d = LF)" and nr: "\<not> has_newline (d # cs)"
    by simp_all
  from "3.IH"[OF nr] nd show ?case by auto
qed

lemma split_newline1_none: "\<not> has_newline b \<Longrightarrow> split_newline1 b = None"
  by (induction b rule: has_newline.induct) auto

lemma has_newline_split:
  "has_newline b \<Longrightarrow> \<exists>line rest. b = line @ NEWLINE @ rest \<and> \<not> has_newline line"
proof (induction b rule: has_newline.induct)
  case 1
  then show ?case by simp
next
  case (2 c)
  then show ?case by simp
next
  case (3 c d cs)
  show ?case
  proof (cases "c = CR \<and> d = LF")
    case True
    then have "c # d # cs = [] @ NEWLINE @ cs \<and> \<not> has_newline []"
      by (simp add: NEWLINE_def)
    then show ?thesis by blast
  next
    case False
    with "3.prems" have "has_newline (d # cs)" by simp
    from "3.IH"[OF this] obtain line rest
      where dc: "d # cs = line @ NEWLINE @ rest" and nl: "\<not> has_newline line"
      by blast
    have "\<not> has_newline (c # line)"
    proof (cases line)
      case Nil
      then show ?thesis by simp
    next
      case (Cons e es)
      with dc have "e = d" by simp
      with Cons nl False show ?thesis by simp
    qed
    moreover from dc have "c # d # cs = (c # line) @ NEWLINE @ rest" by simp
    ultimately show ?thesis by blast
  qed
qed

lemma valid_utf8_not_cont: "valid_utf8 (c # cs) \<Longrightarrow> \<not> is_cont c"
  by (auto simp: is_cont_def Let_def split: if_splits)

lemma drop_chars_WARC:
  assumes "valid_utf8 ((''WARC/'' @ v) @ rest)"
  shows "drop_chars 5 (''WARC/'' @ v) = v"
proof -
  have d: "drop_chars 5 (''WARC/'' @ v) = dropWhile is_cont v"
    by (simp add: is_cont_def numeral_eq_Suc)
  from assms have val: "valid_utf8 (v @ rest)" by simp
  have "dropWhile is_cont v = v"
  proof (cases v)
    case Nil
    then show ?thesis by simp
  next
    case (Cons c cs)
    with val have "valid_utf8 (c # (cs @ rest))" by simp
    then have "\<not> is_cont c" by (rule valid_utf8_not_cont)
    with Cons show ?thesis by simp
  qed
  with d show ?thesis by simp
qed

text \<open>
  Claim C4, as amended, for every input byte sequence \<open>b\<close>. Bytes that are not UTF-8 fail
  with \<^verbatim>\<open>UnicodeDecodeError\<close>; bytes that decode to a text with no line terminator fail with
  \<^verbatim>\<open>ValueError\<close>. For an input that decodes and whose first line is \<open>line\<close> (by
  \<open>has_newline_split\<close> there is no other case): \<^verbatim>\<open>Header.parse\<close> raises \<^verbatim>\<open>IOError\<close> exactly when
  the line does not begin with the four characters \<^verbatim>\<open>WARC\<close> (the fifth character is not looked
  at); when the line does begin with them the result is that of parsing the rest as
  fields, a \<^verbatim>\<open>ValueError\<close> if a field line has no colon; and whenever a header is returned its
  version is the first line without its first five characters, which is the text after
  the slash when the line begins with \<^verbatim>\<open>WARC/\<close>.
\<close>

theorem C4_header_parse_version_line:
  "(\<not> valid_utf8 b \<longrightarrow> Header_parse b = Inl UnicodeDecodeError) \<and>
   (valid_utf8 b \<and> \<not> has_newline b \<longrightarrow> Header_parse b = Inl ValueError) \<and>
   (valid_utf8 (line @ NEWLINE @ rest) \<and> \<not> has_newline line \<longrightarrow>
      (Header_parse (line @ NEWLINE @ rest) = Inl IOError \<longleftrightarrow> \<not> startswith line ''WARC'') \<and>
      (startswith line ''WARC'' \<longrightarrow>
         Header_parse (line @ NEWLINE @ rest) =
           (case Fields_parse rest of
              Inl e \<Rightarrow> Inl ValueError
            | Inr flds \<Rightarrow> Inr \<lparr>version = drop_chars 5 line, header_fields = flds\<rparr>)) \<and>
      (\<forall>h. Header_parse (line @ NEWLINE @ rest) = Inr h \<longrightarrow> version h = drop_chars 5 line) \<and>
      (\<forall>h v. line = ''WARC/'' @ v \<and> Header_parse (line @ NEWLINE @ rest) = Inr h
          \<longrightarrow> version h = v))"
proof (intro conjI impI)
  assume "\<not> valid_utf8 b"
  then show "Header_parse b = Inl UnicodeDecodeError"
    by (simp add: Header_parse_def decode_def)
next
  assume "valid_utf8 b \<and> \<not> has_newline b"
  then show "Header_parse b = Inl ValueError"
    by (simp add: Header_parse_def decode_def split_newline1_none)
next
  assume a: "valid_utf8 (line @ NEWLINE @ rest) \<and> \<not> has_newline line"
  then have dec: "decode (line @ NEWLINE @ rest) = Inr (line @ NEWLINE @ rest)"
    by (simp add: decode_def)
  have sp: "split_newline1 (line @ NEWLINE @ rest) = Some (line, rest)"
    using a by (simp add: split_newline1_line)
  show "(Header_parse (line @ NEWLINE @ rest) = Inl IOError) = (\<not> startswith line ''WARC'')"
  proof (cases "Fields_parse rest")
    case (Inl e)
    with Fields_parse_error[OF Inl] sp dec show ?thesis by (simp add: Header_parse_def)
  next
    case (Inr flds)
    with sp dec show ?thesis by (simp add: Header_parse_def)
  qed
next
  assume a: "valid_utf8 (line @ NEWLINE @ rest) \<and> \<not> has_newline line"
    and sw: "startswith line ''WARC''"
  from a have dec: "decode (line @ NEWLINE @ rest) = Inr (line @ NEWLINE @ rest)"
    by (simp add: decode_def)
  have sp: "split_newline1 (line @ NEWLINE @ rest) = Some (line, rest)"
    using a by (simp add: split_newline1_line)
  show "Header_parse (line @ NEWLINE @ rest) =
           (case Fields_parse rest of
              Inl e \<Rightarrow> Inl ValueError
            | Inr flds \<Rightarrow> Inr \<lparr>version = drop_chars 5 line, header_fields = flds\<rparr>)"
  proof (cases "Fields_parse rest")
    case (Inl e)
    with Fields_parse_error[OF Inl] sp sw dec show ?thesis by (simp add: Header_parse_def)
  next
    case (Inr flds)
    with sp sw dec show ?thesis by (simp add: Header_parse_def)
  qed
next
  assume a: "valid_utf8 (line @ NEWLINE @ rest) \<and> \<not> has_newline line"
  then have dec: "decode (line @ NEWLINE @ rest) = Inr (line @ NEWLINE @ rest)"
    by (simp add: decode_def)
  have sp: "split_newline1 (line @ NEWLINE @ rest) = Some (line, rest)"
    using a by (simp add: split_newline1_line)
  show ver: "\<forall>h. Header_parse (line @ NEWLINE @ rest) = Inr h \<longrightarrow> version h = drop_chars 5 line"
  proof (intro allI impI)
    fix h
    assume h: "Header_parse (line @ NEWLINE @ rest) = Inr h"
    show "version h = drop_chars 5 line"
    proof (cases "startswith line ''WARC''")
      case False
      with sp dec h show ?thesis by (simp add: Header_parse_def)
    next
      case True
      show ?thesis
      proof (cases "Fields_parse rest")
        case (Inl e)
        with True sp dec h show ?thesis by (simp add: Header_parse_def)
      next
        case (Inr flds)
        with True sp dec h have "h = \<lparr>version = drop_chars 5 line, header_fields = flds\<rparr>"
          by (simp add: Header_parse_def)
        then show ?thesis by simp
      qed
    qed
  qed
  show "\<forall>h v. line = ''WARC/'' @ v \<and> Header_parse (line @ NEWLINE @ rest) = Inr h
          \<longrightarrow> version h = v"
  proof (intro allI impI)
    fix h v
    assume lv: "line = ''WARC/'' @ v \<and> Header_parse (line @ NEWLINE @ rest) = Inr h"
    with ver have "version h = drop_chars 5 (''WARC/'' @ v)" by blast
    moreover from a lv have "valid_utf8 ((''WARC/'' @ v) @ NEWLINE @ rest)" by simp
    then have "drop_chars 5 (''WARC/'' @ v) = v" by (rule drop_chars_WARC)
    ultimately show "version h = v" by simp
  qed
qed

text \<open>
  The amended claim C4 on a header that parses, on one whose first line is not a WARC
  version line, on an input with no line terminator, and on an input with a byte that is
  not UTF-8.
\<close>

theorem C4_header_parse_version_line_witness:
  "Header_parse (''WARC/1.0'' @ NEWLINE @ ''WARC-Type: warcinfo'' @ NEWLINE @ NEWLINE)
     = Inr \<lparr>version = ''1.0'', header_fields = [(''WARC-Type'', PyStr ''warcinfo'')]\<rparr>
   \<and> Header_parse (''HTTP/1.0'' @ NEWLINE @ ''WARC-Type: warcinfo'' @ NEWLINE @ NEWLINE)
     = Inl IOError
   \<and> Header_parse ''WARC/1.0'' = Inl ValueError
   \<and> Header_parse (''WARC/1.0'' @ NEWLINE @ ''X: '' @ [CHR 0xFF] @ NEWLINE @ NEWLINE)
     = Inl UnicodeDecodeError"
proof -
  let ?rest = "''WARC-Type: warcinfo'' @ NEWLINE @ NEWLINE"
  let ?bad = "''WARC/1.0'' @ NEWLINE @ ''X: '' @ [CHR 0xFF] @ NEWLINE @ NEWLINE"
  have n1: "valid_utf8 (''WARC/1.0'' @ NEWLINE @ ?rest) \<and> \<not> has_newline ''WARC/1.0''"
    by code_simp
  have n2: "valid_utf8 (''HTTP/1.0'' @ NEWLINE @ ?rest) \<and> \<not> has_newline ''HTTP/1.0''"
    by code_simp
  have n3: "valid_utf8 ''WARC/1.0'' \<and> \<not> has_newline ''WARC/1.0''" by code_simp
  have n4: "\<not> valid_utf8 ?bad" by code_simp
  have s1: "startswith ''WARC/1.0'' ''WARC''" by code_simp
  have s2: "\<not> startswith ''HTTP/1.0'' ''WARC''" by code_simp
  have fp: "Fields_parse ?rest = Inr [(''WARC-Type'', PyStr ''warcinfo'')]" by code_simp
  have dc: "drop_chars 5 ''WARC/1.0'' = ''1.0''" by code_simp
  note r1 = C4_header_parse_version_line[of "''WARC/1.0''" "''WARC/1.0''" ?rest,
      THEN conjunct2, THEN conjunct2, THEN mp, OF n1]
  note r2 = C4_header_parse_version_line[of "''WARC/1.0''" "''HTTP/1.0''" ?rest,
      THEN conjunct2, THEN conjunct2, THEN mp, OF n2]
  note r3 = C4_header_parse_version_line[of "''WARC/1.0''" "''WARC/1.0''" ?rest,
      THEN conjunct2, THEN conjunct1, THEN mp, OF n3]
  note r4 = C4_header_parse_version_line[of ?bad "''WARC/1.0''" ?rest,
      THEN conjunct1, THEN mp, OF n4]
  have a: "Header_parse (''WARC/1.0'' @ NEWLINE @ ?rest)
     = Inr \<lparr>version = ''1.0'', header_fields = [(''WARC-Type'', PyStr ''warcinfo'')]\<rparr>"
    using r1[THEN conjunct2, THEN conjunct1, THEN mp, OF s1] fp dc by simp
  have b: "Header_parse (''HTTP/1.0'' @ NEWLINE @ ?rest) = Inl IOError"
    using r2[THEN conjunct1] s2 by blast
  from a b r3 r4 show ?thesis by blast
qed

text \<open>
  Claim C4 as the specification states it says that \<^verbatim>\<open>Header.parse\<close> fails exactly when the
  first line does not begin with \<^verbatim>\<open>WARC/\<close>. The first line \<^verbatim>\<open>WARC 1.0\<close> does not begin with it
  and is accepted, with version \<^verbatim>\<open>1.0\<close>; the first line \<^verbatim>\<open>WARC/1.0\<close> begins with it and the
  parse fails all the same: on a field line without a colon, on an input that ends with the
  first line and has no line terminator, and on a byte that is not UTF-8.
\<close>

theorem C4_header_parse_counterexample:
  "\<not> startswith ''WARC 1.0'' ''WARC/'' \<and>
   Header_parse (''WARC 1.0'' @ NEWLINE) = Inr \<lparr>version = ''1.0'', header_fields = []\<rparr> \<and>
   startswith ''WARC/1.0'' ''WARC/'' \<and>
   Header_parse (''WARC/1.0'' @ NEWLINE @ ''no separator'' @ NEWLINE) = Inl ValueError \<and>
   Header_parse ''WARC/1.0'' = Inl ValueError \<and>
   Header_parse (''WARC/1.0'' @ NEWLINE @ ''X: '' @ [CHR 0xFF] @ NEWLINE) = Inl UnicodeDecodeError"
  by code_simp

section \<open>Reading the bytes of a reference\<close>

lemma take_chunk_then_rest:
  assumes "a \<le> b"
  shows "take a xs @ take (b - length (take a xs)) (drop (length (take a xs)) xs) = take b xs"
proof (cases "length xs \<le> a")
  case True
  with assms show ?thesis by simp
next
  case False
  then have l: "length (take a xs) = a" by simp
  from assms have "b = a + (b - a)" by simp
  then have "take b xs = take (a + (b - a)) xs" by simp
  also have "\<dots> = take a xs @ take (b - a) (drop a xs)" by (rule take_add)
  finally show ?thesis using l by simp
qed

lemma iter_loop_bounded:
  "0 \<le> br \<Longrightarrow> br \<le> L \<Longrightarrow> len = Some L \<Longrightarrow>
   raised (iter_loop len f br out) = None \<and>
   concat (yielded (iter_loop len f br out))
     = concat out @ take (nat (L - br)) (drop (pos f) (content f))"
proof (induction len f br out rule: iter_loop.induct)
  case (1 len f bytes_read out)
  define n where "n = min 4096 (L - bytes_read)"
  define rest where "rest = drop (pos f) (content f)"
  define data where "data = take (nat n) rest"
  define f' where "f' = f\<lparr>pos := pos f + length data\<rparr>"
  from "1.prems" have n0: "0 \<le> n" and nL: "n \<le> L - bytes_read"
    by (simp_all add: n_def)
  from n0 have n1: "\<not> n < - 1" and n2: "n \<noteq> - 1" by linarith+
  have rd: "file_read f n = Inr (data, f')"
    using n1 n2 by (simp add: file_read_def Let_def data_def rest_def f'_def)
  have nn: "n = (case len of Some l \<Rightarrow> min 4096 (l - bytes_read) | None \<Rightarrow> 4096)"
    using "1.prems"(3) by (simp add: n_def)
  have unf: "iter_loop len f bytes_read out =
      (if data = [] \<or> n = 0 then \<lparr>yielded = out, raised = None, file_after = f'\<rparr>
       else iter_loop len f' (bytes_read + int (length data)) (out @ [data]))"
    by (subst iter_loop.simps) (simp add: nn[symmetric] rd Let_def)
  show ?case
  proof (cases "data = [] \<or> n = 0")
    case True
    have "take (nat (L - bytes_read)) rest = []"
    proof (cases "n = 0")
      case True
      with "1.prems" have "L - bytes_read = 0" by (simp add: n_def min_def split: if_splits)
      then show ?thesis by simp
    next
      case False
      with True n0 have "rest = []" by (simp add: data_def take_eq_Nil)
      then show ?thesis by simp
    qed
    with unf True show ?thesis by (simp add: rest_def)
  next
    case False
    have ld: "int (length data) \<le> L - bytes_read"
      using n0 nL by (simp add: data_def)
    have b0: "0 \<le> bytes_read + int (length data)" using "1.prems"(1) by simp
    have b1: "bytes_read + int (length data) \<le> L" using ld by simp
    have c: "\<not> (fst (data, f') = [] \<or> n = 0)" using False by simp
    note ih = "1.IH"[OF nn rd c, unfolded fst_conv snd_conv, OF b0 b1 "1.prems"(3)]
    have le: "nat n \<le> nat (L - bytes_read)" using nL by simp
    have eq: "data @ take (nat (L - (bytes_read + int (length data))))
                 (drop (pos f') (content f'))
              = take (nat (L - bytes_read)) rest"
    proof -
      have "nat (L - (bytes_read + int (length data)))
              = nat (L - bytes_read) - length data"
        using ld by linarith
      moreover have "drop (pos f') (content f') = drop (length data) rest"
        by (simp add: f'_def rest_def add.commute)
      ultimately show ?thesis
        using take_chunk_then_rest[OF le, of rest] by (simp add: data_def)
    qed
    from ih eq unf False show ?thesis by (simp add: rest_def)
  qed
qed

text \<open>
  Claim C8, as amended: for a reference whose length is \<open>L\<close> and not negative,
  \<^verbatim>\<open>iter_bytes_over_source_file\<close> ends without an error and yields at most \<open>L\<close> bytes in all,
  however long the file is: the chunks joined are the first \<open>L\<close> bytes from the offset, or
  what the file has of them.
\<close>

theorem C8_iter_bytes_at_most_length:
  assumes "length_ref ref = Some L" and "0 \<le> L"
  shows "raised (iter_bytes_over_source_file ref fobj) = None \<and>
         int (length (concat (yielded (iter_bytes_over_source_file ref fobj)))) \<le> L \<and>
         concat (yielded (iter_bytes_over_source_file ref fobj))
           = take (nat L) (drop (if file_offset ref \<noteq> 0 then file_offset ref else pos fobj)
                                (content fobj))"
proof -
  let ?p = "if file_offset ref \<noteq> 0 then file_offset ref else pos fobj"
  let ?f = "fobj\<lparr>pos := ?p\<rparr>"
  have it: "iter_bytes_over_source_file ref fobj = iter_loop (Some L) ?f 0 []"
  proof (cases "file_offset ref = 0")
    case True
    have "fobj\<lparr>pos := pos fobj\<rparr> = fobj" by simp
    with True assms(1) show ?thesis by (simp add: iter_bytes_over_source_file_def)
  next
    case False
    with assms(1) show ?thesis
      by (simp add: iter_bytes_over_source_file_def file_seek_def)
  qed
  from iter_loop_bounded[of 0 L "Some L" ?f "[]"] assms(2)
  have r: "raised (iter_loop (Some L) ?f 0 []) = None"
    and c: "concat (yielded (iter_loop (Some L) ?f 0 []))
              = take (nat L) (drop ?p (content fobj))"
    by simp_all
  have "length (take (nat L) (drop ?p (content fobj))) \<le> nat L" by simp
  then have "int (length (take (nat L) (drop ?p (content fobj)))) \<le> L"
    using assms(2) by linarith
  with it r c show ?thesis by simp
qed

text \<open>
  The amended claim C8 on a ten-byte file, for the three bytes at offset 2.
\<close>

theorem C8_iter_bytes_at_most_length_witness:
  "int (length (concat (yielded (iter_bytes_over_source_file
      \<lparr>file_offset = 2, length_ref = Some 3\<rparr> \<lparr>content = ''0123456789'', pos = 0\<rparr>)))) \<le> 3
   \<and> concat (yielded (iter_bytes_over_source_file
      \<lparr>file_offset = 2, length_ref = Some 3\<rparr> \<lparr>content = ''0123456789'', pos = 0\<rparr>)) = ''234''"
proof -
  let ?ref = "\<lparr>file_offset = 2, length_ref = Some 3\<rparr>"
  let ?f = "\<lparr>content = ''0123456789'', pos = 0\<rparr>"
  have h1: "length_ref ?ref = Some 3" by simp
  have h2: "(0::int) \<le> 3" by simp
  note r = C8_iter_bytes_at_most_length[OF h1 h2, of ?f]
  have t: "take (nat 3) (drop (if file_offset ?ref \<noteq> 0 then file_offset ?ref else pos ?f)
             (content ?f)) = ''234''"
    by simp
  from r[THEN conjunct2, THEN conjunct1] trans[OF r[THEN conjunct2, THEN conjunct2] t]
  show ?thesis by (rule conjI)
qed

text \<open>
  Claim C8 as the specification states it holds for every length that is not \<^verbatim>\<open>None\<close>. The
  source does not check the sign of the length: for the length \<open>-1\<close> the first call is
  \<^verbatim>\<open>read(-1)\<close>, which reads to the end of the file, so the eight bytes from offset 2 are
  yielded, more than the length; the next call, \<^verbatim>\<open>read(-9)\<close>, ends the loop with a
  \<^verbatim>\<open>ValueError\<close>.
\<close>

theorem C8_negative_length_counterexample:
  "length_ref \<lparr>file_offset = 2, length_ref = Some (- 1)\<rparr> = Some (- 1) \<and>
   yielded (iter_bytes_over_source_file
      \<lparr>file_offset = 2, length_ref = Some (- 1)\<rparr> \<lparr>content = ''0123456789'', pos = 0\<rparr>)
     = [''23456789''] \<and>
   \<not> int (length (concat (yielded (iter_bytes_over_source_file
      \<lparr>file_offset = 2, length_ref = Some (- 1)\<rparr> \<lparr>content = ''0123456789'', pos = 0\<rparr>))))
     \<le> - 1 \<and>
   raised (iter_bytes_over_source_file
      \<lparr>file_offset = 2, length_ref = Some (- 1)\<rparr> \<lparr>content = ''0123456789'', pos = 0\<rparr>)
     = Some ValueError"
  by code_simp

text \<open>
  \<^verbatim>\<open>Record.load\<close> makes such a reference from a header that declares the length \<open>-1\<close>.
\<close>

lemma negative_length_from_header:
  "(case Record_load
           \<lparr>content = ''WARC/1.0'' @ NEWLINE @ ''Content-Length: -1'' @ NEWLINE @ NEWLINE
              @ ''0123456789'',
            pos = 0\<rparr> False of
      Inl e \<Rightarrow> None
    | Inr (r, f, w) \<Rightarrow> Some (content_block r))
   = Some (BinaryBlock \<lparr>file_offset = 32, length_ref = Some (- 1)\<rparr>)"
  by code_simp

section \<open>Loading a block and a record\<close>

lemma Fields_index_Inl:
  "Fields_index flds name = Inl e \<Longrightarrow> \<forall>x \<in> set flds. lower (fst x) \<noteq> lower name"
proof (induction flds)
  case Nil
  show ?case by simp
next
  case (Cons p rest)
  obtain k v where p: "p = (k, v)" by (cases p)
  from Cons.prems p have ne: "lower k \<noteq> lower name"
    by (auto split: if_splits)
  with Cons.prems p have "Fields_index rest name = Inl e"
    by (auto split: sum.splits)
  from Cons.IH[OF this] ne p show ?case by simp
qed

lemma Fields_getitem_setitem_same:
  "Fields_getitem (Fields_setitem flds name val) name = val"
proof (cases "Fields_index flds name")
  case (Inl e)
  from Fields_getitem_append_nomatch[OF Fields_index_Inl[OF Inl], of "[(name, val)]"] Inl
  show ?thesis by (simp add: Fields_setitem_def)
next
  case (Inr i)
  from Fields_index_Inr[OF Inr]
  have pre: "\<forall>x \<in> set (take i flds). lower (fst x) \<noteq> lower name" by simp
  from Fields_getitem_append_nomatch[OF pre] Fields_setitem_present[OF Inr, of val]
  show ?thesis by simp
qed

lemma Fields_getitem_filter:
  "Fields_getitem flds m =
     (case filter (\<lambda>x. lower (fst x) = lower m) flds of [] \<Rightarrow> PyNone | x # xs \<Rightarrow> snd x)"
  by (induction flds) auto

lemma filter_setitem_other:
  assumes "lower n \<noteq> lower m"
  shows "filter (\<lambda>x. lower (fst x) = lower m) (Fields_setitem flds n val)
           = filter (\<lambda>x. lower (fst x) = lower m) flds"
proof (cases "Fields_index flds n")
  case (Inl e)
  with assms show ?thesis by (simp add: Fields_setitem_def)
next
  case (Inr i)
  from Fields_index_Inr[OF Inr] have i: "i < length flds"
    and at: "lower (fst (flds ! i)) = lower n" by simp_all
  let ?M = "\<lambda>x. lower (fst x) = lower m"
  have ff: "\<And>xs. filter ?M (Fields_delitem xs n) = filter ?M xs"
    unfolding Fields_delitem_def filter_filter using assms
    by (intro filter_cong) auto
  have split: "flds = take i flds @ flds ! i # drop (Suc i) flds"
    using i by (rule id_take_nth_drop)
  have "filter ?M flds = filter ?M (take i flds @ flds ! i # drop (Suc i) flds)"
    using split by simp
  also have "\<dots> = filter ?M (take i flds) @ filter ?M (drop (Suc i) flds)"
    using at assms by simp
  finally have a: "filter ?M flds = filter ?M (take i flds) @ filter ?M (drop (Suc i) flds)" .
  have "filter ?M (Fields_setitem flds n val)
          = filter ?M (take i flds) @ filter ?M (Fields_delitem (drop (Suc i) flds) n)"
    using assms by (simp add: Fields_setitem_present[OF Inr])
  with a ff show ?thesis by simp
qed

lemma Fields_getitem_setitem_other:
  "lower n \<noteq> lower m \<Longrightarrow>
   Fields_getitem (Fields_setitem flds n val) m = Fields_getitem flds m"
  by (simp add: Fields_getitem_filter filter_setitem_other)

lemma content_length_set: "content_length (set_content_length hdr i) = Inr i"
  by (simp add: content_length_def set_content_length_def Fields_getitem_setitem_same)

lemma content_type_set:
  "Fields_getitem (header_fields (set_content_length hdr i)) ''content-type''
     = Fields_getitem (header_fields hdr) ''content-type''"
proof -
  have "lower ''Content-Length'' \<noteq> lower ''content-type''" by code_simp
  then show ?thesis
    by (simp add: set_content_length_def Fields_getitem_setitem_other)
qed

lemma Record_load_Inr:
  assumes "Record_load f pb = Inr (r, f', w)"
  shows "\<exists>hdr bl f1 block hdr'.
           Record_load_header f = Inr (hdr, bl, f1) \<and>
           Record_load_block f1 hdr bl pb = Inr (block, f') \<and>
           Record_load_reconcile hdr bl block = Inr (hdr', w) \<and>
           r = \<lparr>header = hdr', content_block = block, record_file_offset = file_tell f\<rparr>"
proof (cases "Record_load_header f")
  case (Inl e)
  with assms show ?thesis by (simp add: Record_load_def)
next
  case (Inr t)
  obtain hdr bl f1 where t: "t = (hdr, bl, f1)" by (cases t)
  show ?thesis
  proof (cases "Record_load_block f1 hdr bl pb")
    case (Inl e)
    with assms Inr t show ?thesis by (simp add: Record_load_def)
  next
    case blk: (Inr u)
    obtain block f2 where u: "u = (block, f2)" by (cases u)
    show ?thesis
    proof (cases "Record_load_reconcile hdr bl block")
      case (Inl e)
      with assms Inr t blk u show ?thesis by (simp add: Record_load_def)
    next
      case rec: (Inr v)
      obtain hdr' w' where v: "v = (hdr', w')" by (cases v)
      from assms Inr t blk u rec v show ?thesis by (simp add: Record_load_def)
    qed
  qed
qed

lemma reconcile_header:
  assumes "Record_load_reconcile hdr bl block = Inr (hdr', w)"
  shows "\<exists>new. content_block_length block = Inr new \<and>
           (if bl \<noteq> new then hdr' = set_content_length hdr new \<and>
                              (\<exists>old. content_length hdr = Inr old \<and> w = [Length_changed old new])
            else hdr' = hdr \<and> w = [])"
  using assms unfolding Record_load_reconcile_def
  by (cases "content_block_length block"; cases "content_length hdr") (auto split: if_splits)

text \<open>
  Claim C9, as amended: when the field delimiter does not occur in the window of the
  declared length, \<^verbatim>\<open>BlockWithPayload.load\<close> raises nothing for that; it reads the whole
  window, decodes it and hands the text to the parser of the field class. Its result is an
  error exactly when the decoding or that parser raises one, and otherwise a block with the
  parsed fields and a payload of length zero that starts where the window ends, the file
  being left at the end of the window.
\<close>

theorem C9_no_delimiter_whole_window_is_header:
  assumes "0 \<le> len"
    and "find_sub FIELD_DELIM_BYTES (take (nat len) (drop (pos f) (content f))) = None"
  shows "BlockWithPayload_load f len cls =
     (case decode (take (nat len) (drop (pos f) (content f))) of
        Inl e \<Rightarrow> Inl e
      | Inr s \<Rightarrow>
          (case field_cls_parse cls s of
             Inl e \<Rightarrow> Inl e
           | Inr flds \<Rightarrow>
               Inr (BlockWithPayload flds
                      \<lparr>file_offset = pos f + length (take (nat len) (drop (pos f) (content f))),
                       length_ref = Some 0\<rparr>,
                    f\<lparr>pos := pos f + length (take (nat len) (drop (pos f) (content f)))\<rparr>)))"
proof -
  define window where "window = take (nat len) (drop (pos f) (content f))"
  define f1 where "f1 = f\<lparr>pos := pos f + length window\<rparr>"
  have search: "find_file_pattern f FIELD_DELIM_BYTES (Some len) True = Inl ValueError"
    using assms(2) by (simp add: find_file_pattern_def)
  from assms(1) have n1: "\<not> len < - 1" and n2: "len \<noteq> - 1" by linarith+
  have rd: "file_read f len = Inr (window, f1)"
    using n1 n2 by (simp add: file_read_def Let_def window_def f1_def)
  have sk: "file_seek f1 (int (pos f) + int (length window)) = Inr f1"
    by (simp add: file_seek_def f1_def)
  have tl: "file_tell f1 = pos f + length window"
    by (simp add: file_tell_def f1_def)
  have "BlockWithPayload_load f len cls =
     (case decode window of
        Inl e \<Rightarrow> Inl e
      | Inr s \<Rightarrow>
          (case field_cls_parse cls s of
             Inl e \<Rightarrow> Inl e
           | Inr flds \<Rightarrow>
               Inr (BlockWithPayload flds \<lparr>file_offset = pos f + length window,
                                           length_ref = Some 0\<rparr>, f1)))"
    unfolding BlockWithPayload_load_def search
    by (simp add: rd sk tl Let_def is_ValueError_def split: sum.splits)
  then show ?thesis unfolding f1_def window_def .
qed

text \<open>
  The amended claim C9 on a window of six bytes that holds one field line.
\<close>

theorem C9_no_delimiter_whole_window_is_header_witness:
  "BlockWithPayload_load \<lparr>content = ''k: v'' @ NEWLINE @ ''more'', pos = 0\<rparr> 6 Fields_cls
     = Inr (BlockWithPayload (Fields [(''k'', PyStr ''v'')])
              \<lparr>file_offset = 6, length_ref = Some 0\<rparr>,
            \<lparr>content = ''k: v'' @ NEWLINE @ ''more'', pos = 6\<rparr>)"
proof -
  let ?f = "\<lparr>content = ''k: v'' @ NEWLINE @ ''more'', pos = 0\<rparr>"
  have h1: "(0::int) \<le> 6" by simp
  have h2: "find_sub FIELD_DELIM_BYTES (take (nat 6) (drop (pos ?f) (content ?f))) = None"
    by code_simp
  have e: "(case decode (take (nat 6) (drop (pos ?f) (content ?f))) of
        Inl e \<Rightarrow> Inl e
      | Inr s \<Rightarrow>
          (case field_cls_parse Fields_cls s of
             Inl e \<Rightarrow> Inl e
           | Inr flds \<Rightarrow>
               Inr (BlockWithPayload flds
                      \<lparr>file_offset = pos ?f + length (take (nat 6) (drop (pos ?f) (content ?f))),
                       length_ref = Some 0\<rparr>,
                    ?f\<lparr>pos := pos ?f + length (take (nat 6) (drop (pos ?f) (content ?f)))\<rparr>)))
     = Inr (BlockWithPayload (Fields [(''k'', PyStr ''v'')])
              \<lparr>file_offset = 6, length_ref = Some 0\<rparr>,
            \<lparr>content = ''k: v'' @ NEWLINE @ ''more'', pos = 6\<rparr>)"
    by code_simp
  show ?thesis
    by (rule trans[OF C9_no_delimiter_whole_window_is_header[OF h1 h2, of Fields_cls] e])
qed

text \<open>
  Claim C9 as the specification states it says that the load does not raise. The window
  \<^verbatim>\<open>abc\<close> holds no delimiter, and the load fails with \<^verbatim>\<open>ValueError\<close>: the window is parsed as
  fields and its line has no colon. The window of the four bytes \<^verbatim>\<open>k: \<close> and 0xFF holds no
  delimiter either, and the load fails with \<^verbatim>\<open>UnicodeDecodeError\<close>: the window is not UTF-8.
  And for the declared length \<open>-2\<close> nothing is searched and nothing can be read: \<^verbatim>\<open>read(-2)\<close> is
  a \<^verbatim>\<open>ValueError\<close>.
\<close>

theorem C9_no_delimiter_counterexample:
  "find_sub FIELD_DELIM_BYTES (take 3 (drop 0 ''abc'')) = None \<and>
   BlockWithPayload_load \<lparr>content = ''abc'', pos = 0\<rparr> 3 Fields_cls = Inl ValueError \<and>
   find_sub FIELD_DELIM_BYTES (take 4 (drop 0 (''k: '' @ [CHR 0xFF]))) = None \<and>
   BlockWithPayload_load \<lparr>content = ''k: '' @ [CHR 0xFF], pos = 0\<rparr> 4 Fields_cls
     = Inl UnicodeDecodeError \<and>
   find_sub FIELD_DELIM_BYTES (take (nat (- 2)) (drop 0 ''k: v'')) = None \<and>
   BlockWithPayload_load \<lparr>content = ''k: v'', pos = 0\<rparr> (- 2) Fields_cls = Inl ValueError"
  by code_simp

lemma BinaryBlock_load_Inr:
  "BinaryBlock_load f len = Inr (block, f') \<Longrightarrow>
     block = BinaryBlock \<lparr>file_offset = pos f, length_ref = Some len\<rparr>"
  by (auto simp: BinaryBlock_load_def Let_def file_tell_def split: sum.splits)

lemma BlockWithPayload_load_Inr:
  assumes "BlockWithPayload_load f len cls = Inr (block, f')"
  shows "\<exists>flds p pl data. block = BlockWithPayload flds p \<and> length_ref p = Some pl \<and>
           field_cls_parse cls data = Inr flds"
proof -
  let ?fl = "case find_file_pattern f FIELD_DELIM_BYTES (Some len) True of
              Inl e \<Rightarrow> (if is_ValueError e then Inr len else Inl e)
            | Inr n \<Rightarrow> Inr (int n)"
  show ?thesis
  proof (cases ?fl)
    case (Inl e)
    with assms show ?thesis by (simp add: BlockWithPayload_load_def)
  next
    case fl: (Inr field_length)
    show ?thesis
    proof (cases "file_read f field_length")
      case (Inl e)
      with assms fl show ?thesis by (simp add: BlockWithPayload_load_def)
    next
      case rd: (Inr t)
      obtain bs f1 where t: "t = (bs, f1)" by (cases t)
      show ?thesis
      proof (cases "decode bs")
        case (Inl e)
        with assms fl rd t show ?thesis by (simp add: BlockWithPayload_load_def)
      next
        case dc: (Inr data)
        show ?thesis
        proof (cases "field_cls_parse cls data")
          case (Inl e)
          with assms fl rd t dc show ?thesis by (simp add: BlockWithPayload_load_def)
        next
          case ps: (Inr flds)
          show ?thesis
          proof (cases "file_seek f1 (int (file_tell f1) + (len - field_length))")
            case (Inl e)
            with assms fl rd t dc ps show ?thesis
              by (simp add: BlockWithPayload_load_def Let_def)
          next
            case (Inr f2)
            with assms fl rd t dc ps have "block = BlockWithPayload flds
                \<lparr>file_offset = file_tell f1, length_ref = Some (len - field_length)\<rparr>"
              by (simp add: BlockWithPayload_load_def Let_def)
            with ps show ?thesis by auto
          qed
        qed
      qed
    qed
  qed
qed

lemma field_cls_parse_HTTP:
  "field_cls_parse HTTPHeaders_cls data = Inr flds \<Longrightarrow> \<exists>st fl. flds = HTTPHeaders st fl"
  by (cases "HTTPHeaders_parse data") auto

lemma field_cls_parse_Fields:
  "field_cls_parse Fields_cls data = Inr flds \<Longrightarrow> \<exists>fl. flds = Fields fl"
  by (cases "Fields_parse data") auto

lemma Record_load_block_dispatch:
  assumes "Record_load_block f hdr bl pb = Inr (block, f')"
  defines "ct \<equiv> Fields_getitem (header_fields hdr) ''content-type''"
  shows "(pb \<longrightarrow> (\<exists>ref. block = BinaryBlock ref)) \<and>
         (\<not> pb \<and> is_http_type ct \<longrightarrow> (\<exists>st fl p. block = BlockWithPayload (HTTPHeaders st fl) p)) \<and>
         (\<not> pb \<and> \<not> is_http_type ct \<and> ct = PyStr ''application/warc-fields'' \<longrightarrow>
            (\<exists>fl p. block = BlockWithPayload (Fields fl) p)) \<and>
         (\<not> pb \<and> \<not> is_http_type ct \<and> ct \<noteq> PyStr ''application/warc-fields'' \<longrightarrow>
            (\<exists>ref. block = BinaryBlock ref))"
proof -
  have g: "Fields_get (header_fields hdr) ''content-type'' PyNone = Inr ct"
    by (simp add: Fields_get_def Fields_getitem_try_def ct_def)
  show ?thesis
  proof (cases pb)
    case True
    with assms(1) g have "BinaryBlock_load f bl = Inr (block, f')"
      by (simp add: Record_load_block_def)
    from BinaryBlock_load_Inr[OF this] True show ?thesis by simp
  next
    case npb: False
    show ?thesis
    proof (cases ct)
      case PyNone
      with assms(1) g npb have "BinaryBlock_load f bl = Inr (block, f')"
        by (simp add: Record_load_block_def)
      from BinaryBlock_load_Inr[OF this] npb PyNone show ?thesis
        by (simp add: is_http_type_def)
    next
      case (PyInt i)
      show ?thesis
      proof (cases "i = 0")
        case True
        with assms(1) g npb PyInt have "BinaryBlock_load f bl = Inr (block, f')"
          by (simp add: Record_load_block_def)
        from BinaryBlock_load_Inr[OF this] npb PyInt show ?thesis
          by (simp add: is_http_type_def)
      next
        case False
        with assms(1) g npb PyInt show ?thesis
          by (simp add: Record_load_block_def)
      qed
    next
      case (PyStr s)
      show ?thesis
      proof (cases "startswith s ''application/http''")
        case True
        then have ne: "s \<noteq> []" by (auto simp: startswith_def)
        with assms(1) g npb PyStr True
        have "BlockWithPayload_load f bl HTTPHeaders_cls = Inr (block, f')"
          by (simp add: Record_load_block_def)
        from BlockWithPayload_load_Inr[OF this] obtain flds p data
          where b: "block = BlockWithPayload flds p"
            and ps: "field_cls_parse HTTPHeaders_cls data = Inr flds"
          by blast
        from field_cls_parse_HTTP[OF ps] b npb PyStr True show ?thesis
          by (auto simp: is_http_type_def)
      next
        case nh: False
        show ?thesis
        proof (cases "s = ''application/warc-fields''")
          case True
          with assms(1) g npb PyStr nh
          have "BlockWithPayload_load f bl Fields_cls = Inr (block, f')"
            by (simp add: Record_load_block_def)
          from BlockWithPayload_load_Inr[OF this] obtain flds p data
            where b: "block = BlockWithPayload flds p"
              and ps: "field_cls_parse Fields_cls data = Inr flds"
            by blast
          from field_cls_parse_Fields[OF ps] b npb PyStr nh True show ?thesis
            by (auto simp: is_http_type_def)
        next
          case False
          with assms(1) g npb PyStr nh have "BinaryBlock_load f bl = Inr (block, f')"
            by (cases "s = []") (simp_all add: Record_load_block_def)
          from BinaryBlock_load_Inr[OF this] npb PyStr nh False show ?thesis
            by (simp add: is_http_type_def)
        qed
      qed
    qed
  qed
qed

lemma warcfields_load:
  "Record_load warcfields_file False
     = Inr (warcfields_record, warcfields_file\<lparr>pos := 83\<rparr>, [Length_changed 12 11])"
  by code_simp

lemma warcfields_load_header:
  "Record_load_header warcfields_file
     = Inr (warcfields_header, 12, warcfields_file\<lparr>pos := 71\<rparr>)"
  by code_simp

text \<open>
  Claim C3: in a record that \<^verbatim>\<open>Record.load\<close> returns, the block is a \<^verbatim>\<open>BinaryBlock\<close> whenever
  \<^verbatim>\<open>preserve_block\<close> is set; otherwise it is a \<^verbatim>\<open>BlockWithPayload\<close> with \<^verbatim>\<open>HTTPHeaders\<close> when the
  content type of the header starts with \<^verbatim>\<open>application/http\<close>, a \<^verbatim>\<open>BlockWithPayload\<close> with
  plain \<^verbatim>\<open>Fields\<close> when it is exactly \<^verbatim>\<open>application/warc-fields\<close>, and a \<^verbatim>\<open>BinaryBlock\<close> in every
  other case, a missing content type included.
\<close>

theorem C3_content_block_dispatch:
  assumes "Record_load f pb = Inr (r, f', w)"
  shows "(pb \<longrightarrow> (\<exists>ref. content_block r = BinaryBlock ref)) \<and>
         (\<not> pb \<and> is_http_type (Fields_getitem (header_fields (header r)) ''content-type'')
            \<longrightarrow> (\<exists>st fl p. content_block r = BlockWithPayload (HTTPHeaders st fl) p)) \<and>
         (\<not> pb \<and> \<not> is_http_type (Fields_getitem (header_fields (header r)) ''content-type'')
            \<and> Fields_getitem (header_fields (header r)) ''content-type''
                 = PyStr ''application/warc-fields''
            \<longrightarrow> (\<exists>fl p. content_block r = BlockWithPayload (Fields fl) p)) \<and>
         (\<not> pb \<and> \<not> is_http_type (Fields_getitem (header_fields (header r)) ''content-type'')
            \<and> Fields_getitem (header_fields (header r)) ''content-type''
                 \<noteq> PyStr ''application/warc-fields''
            \<longrightarrow> (\<exists>ref. content_block r = BinaryBlock ref))"
proof -
  from Record_load_Inr[OF assms] obtain hdr bl f1 block hdr'
    where blk: "Record_load_block f1 hdr bl pb = Inr (block, f')"
      and rec: "Record_load_reconcile hdr bl block = Inr (hdr', w)"
      and r: "r = \<lparr>header = hdr', content_block = block, record_file_offset = file_tell f\<rparr>"
    by blast
  from reconcile_header[OF rec]
  have "hdr' = hdr \<or> (\<exists>new. hdr' = set_content_length hdr new)"
    by (auto split: if_splits)
  then have ct: "Fields_getitem (header_fields hdr') ''content-type''
                   = Fields_getitem (header_fields hdr) ''content-type''"
    using content_type_set by auto
  have h: "header r = hdr'" and b: "content_block r = block"
    using r by simp_all
  show ?thesis unfolding h b ct by (rule Record_load_block_dispatch[OF blk])
qed

text \<open>
  Claim C3 on the sample file, read without \<^verbatim>\<open>preserve_block\<close>.
\<close>

theorem C3_content_block_dispatch_witness:
  "\<exists>fl p. content_block warcfields_record = BlockWithPayload (Fields fl) p"
proof -
  note r = C3_content_block_dispatch[OF warcfields_load]
  have a: "\<not> False \<and>
      \<not> is_http_type (Fields_getitem (header_fields (header warcfields_record)) ''content-type'')
      \<and> Fields_getitem (header_fields (header warcfields_record)) ''content-type''
           = PyStr ''application/warc-fields''"
    by code_simp
  from r[THEN conjunct2, THEN conjunct2, THEN conjunct1, THEN mp, OF a]
  show ?thesis .
qed

lemma Record_load_header_length:
  assumes "Record_load_header f = Inr (hdr, declared, f1)"
  shows "content_length hdr = Inr declared"
proof (cases "find_file_pattern f FIELD_DELIM_BYTES None True")
  case (Inl e)
  with assms show ?thesis by (simp add: Record_load_header_def)
next
  case fp: (Inr header_length)
  show ?thesis
  proof (cases "file_read f (int header_length)")
    case (Inl e)
    with assms fp show ?thesis by (simp add: Record_load_header_def)
  next
    case rd: (Inr t)
    obtain data f2 where t: "t = (data, f2)" by (cases t)
    show ?thesis
    proof (cases "Header_parse data")
      case (Inl e)
      with assms fp rd t show ?thesis by (simp add: Record_load_header_def)
    next
      case hp: (Inr h)
      show ?thesis
      proof (cases "content_length h")
        case (Inl e)
        with assms fp rd t hp show ?thesis by (simp add: Record_load_header_def)
      next
        case (Inr bl)
        with assms fp rd t hp show ?thesis by (simp add: Record_load_header_def)
      qed
    qed
  qed
qed

lemma Record_load_block_cases:
  assumes "Record_load_block f hdr bl pb = Inr x"
  shows "BinaryBlock_load f bl = Inr x \<or>
         BlockWithPayload_load f bl HTTPHeaders_cls = Inr x \<or>
         BlockWithPayload_load f bl Fields_cls = Inr x"
proof -
  define ct where "ct = Fields_getitem (header_fields hdr) ''content-type''"
  define c where "c = (if \<not> pb \<and> truthy ct then py_startswith ct ''application/http''
                       else Inr False)"
  have g: "Fields_get (header_fields hdr) ''content-type'' PyNone = Inr ct"
    by (simp add: Fields_get_def Fields_getitem_try_def ct_def)
  have unf: "Record_load_block f hdr bl pb =
      (case c of
         Inl e \<Rightarrow> Inl e
       | Inr is_http \<Rightarrow>
           if is_http then BlockWithPayload_load f bl HTTPHeaders_cls
           else if \<not> pb \<and> ct = PyStr ''application/warc-fields''
           then BlockWithPayload_load f bl Fields_cls
           else BinaryBlock_load f bl)"
    unfolding Record_load_block_def g c_def by simp
  show ?thesis
  proof (cases c)
    case (Inl e)
    with assms unf show ?thesis by simp
  next
    case (Inr is_http)
    show ?thesis
    proof (cases is_http)
      case True
      with assms unf Inr show ?thesis by simp
    next
      case False
      show ?thesis
      proof (cases "\<not> pb \<and> ct = PyStr ''application/warc-fields''")
        case True
        with assms unf Inr False show ?thesis by simp
      next
        case nw: False
        from assms unf Inr False have "BinaryBlock_load f bl = Inr x"
          using nw by (simp del: not_False_eq_True)
        then show ?thesis by simp
      qed
    qed
  qed
qed

lemma Record_load_block_binary:
  assumes "Record_load_block f hdr bl pb = Inr (BinaryBlock ref, f')"
  shows "length_ref ref = Some bl"
proof -
  have nb: "\<And>cls. BlockWithPayload_load f bl cls \<noteq> Inr (BinaryBlock ref, f')"
  proof
    fix cls assume "BlockWithPayload_load f bl cls = Inr (BinaryBlock ref, f')"
    from BlockWithPayload_load_Inr[OF this] show False by simp
  qed
  from Record_load_block_cases[OF assms] nb
  have "BinaryBlock_load f bl = Inr (BinaryBlock ref, f')" by blast
  from BinaryBlock_load_Inr[OF this] show ?thesis by simp
qed

text \<open>
  Claim C2: in a record that \<^verbatim>\<open>Record.load\<close> returns, the \<^verbatim>\<open>Content-Length\<close> of the header is
  the length of the block: for a \<^verbatim>\<open>BlockWithPayload\<close> the length of the fields as bytes plus
  two plus the length of the payload, for a \<^verbatim>\<open>BinaryBlock\<close> its bound length, which is the
  declared one. When that length differs from the declared \<^verbatim>\<open>Content-Length\<close>, one warning
  is logged and the field is set to the new length in the parsed header; when it is equal,
  nothing is logged and the header is the parsed one.
\<close>

theorem C2_content_length_reconciled:
  assumes "Record_load f pb = Inr (r, f', w)"
    and "Record_load_header f = Inr (hdr, declared, f1)"
  shows "\<exists>new. content_block_length (content_block r) = Inr new \<and>
           content_length (header r) = Inr new \<and>
           (\<forall>flds p. content_block r = BlockWithPayload flds p \<longrightarrow>
              (\<exists>pl. length_ref p = Some pl \<and>
                    new = int (length (fields_obj_bytes flds)) + 2 + pl)) \<and>
           (\<forall>ref. content_block r = BinaryBlock ref \<longrightarrow>
              length_ref ref = Some new \<and> new = declared) \<and>
           (declared \<noteq> new \<longrightarrow>
              w = [Length_changed declared new] \<and>
              header r = set_content_length hdr new \<and>
              Fields_getitem (header_fields (header r)) ''Content-Length'' = PyInt new) \<and>
           (declared = new \<longrightarrow> w = [] \<and> header r = hdr)"
proof -
  from Record_load_Inr[OF assms(1)] obtain hdr0 bl0 f10 block hdr'
    where h0: "Record_load_header f = Inr (hdr0, bl0, f10)"
      and blk0: "Record_load_block f10 hdr0 bl0 pb = Inr (block, f')"
      and rec0: "Record_load_reconcile hdr0 bl0 block = Inr (hdr', w)"
      and r: "r = \<lparr>header = hdr', content_block = block, record_file_offset = file_tell f\<rparr>"
    by blast
  from h0 assms(2) have same: "hdr0 = hdr" "bl0 = declared" "f10 = f1" by simp_all
  from blk0 same have blk: "Record_load_block f1 hdr declared pb = Inr (block, f')" by simp
  from rec0 same have rec: "Record_load_reconcile hdr declared block = Inr (hdr', w)" by simp
  have old: "content_length hdr = Inr declared"
    by (rule Record_load_header_length[OF assms(2)])
  from reconcile_header[OF rec] obtain new
    where len: "content_block_length block = Inr new"
      and upd: "if declared \<noteq> new
                then hdr' = set_content_length hdr new \<and>
                     (\<exists>old. content_length hdr = Inr old \<and> w = [Length_changed old new])
                else hdr' = hdr \<and> w = []"
    by blast
  have cl: "content_length hdr' = Inr new"
  proof (cases "declared = new")
    case True
    with upd old show ?thesis by simp
  next
    case False
    with upd show ?thesis by (simp add: content_length_set)
  qed
  have bwp: "\<forall>flds p. block = BlockWithPayload flds p \<longrightarrow>
              (\<exists>pl. length_ref p = Some pl \<and>
                    new = int (length (fields_obj_bytes flds)) + 2 + pl)"
  proof (intro allI impI)
    fix flds p assume b: "block = BlockWithPayload flds p"
    show "\<exists>pl. length_ref p = Some pl \<and> new = int (length (fields_obj_bytes flds)) + 2 + pl"
    proof (cases "length_ref p")
      case None
      with len b show ?thesis by simp
    next
      case (Some pl)
      with len b show ?thesis by (simp add: NEWLINE_BYTES_def)
    qed
  qed
  have bin: "\<forall>ref. block = BinaryBlock ref \<longrightarrow> length_ref ref = Some new \<and> new = declared"
  proof (intro allI impI)
    fix ref assume b: "block = BinaryBlock ref"
    with blk have "length_ref ref = Some declared" by (simp add: Record_load_block_binary)
    with len b show "length_ref ref = Some new \<and> new = declared" by simp
  qed
  have ne: "declared \<noteq> new \<longrightarrow>
              w = [Length_changed declared new] \<and> hdr' = set_content_length hdr new \<and>
              Fields_getitem (header_fields hdr') ''Content-Length'' = PyInt new"
  proof
    assume d: "declared \<noteq> new"
    with upd have h: "hdr' = set_content_length hdr new"
      and "\<exists>old. content_length hdr = Inr old \<and> w = [Length_changed old new]"
      by simp_all
    with old have w: "w = [Length_changed declared new]" by simp
    have "Fields_getitem (header_fields (set_content_length hdr new)) ''Content-Length''
            = PyInt new"
      by (simp add: set_content_length_def Fields_getitem_setitem_same)
    with h w show "w = [Length_changed declared new] \<and> hdr' = set_content_length hdr new \<and>
              Fields_getitem (header_fields hdr') ''Content-Length'' = PyInt new"
      by simp
  qed
  have eq: "declared = new \<longrightarrow> w = [] \<and> hdr' = hdr"
    using upd by simp
  have h: "header r = hdr'" and b: "content_block r = block"
    using r by simp_all
  show ?thesis
    unfolding h b
    apply (rule exI[of _ new])
    apply (intro conjI)
         apply (rule len)
        apply (rule cl)
       apply (rule bwp)
      apply (rule bin)
     apply (rule ne)
    apply (rule eq)
    done
qed

text \<open>
  Claim C2 on the sample file: 12 bytes declared, 11 found.
\<close>

theorem C2_content_length_reconciled_witness:
  "content_length (header warcfields_record) = Inr 11 \<and>
   header warcfields_record = set_content_length warcfields_header 11"
proof -
  from C2_content_length_reconciled[OF warcfields_load warcfields_load_header]
  obtain new where a: "content_block_length (content_block warcfields_record) = Inr new"
    and b: "content_length (header warcfields_record) = Inr new"
    and c: "12 \<noteq> new \<longrightarrow> header warcfields_record = set_content_length warcfields_header new"
    by blast
  have "content_block_length (content_block warcfields_record) = Inr 11" by code_simp
  with a have "new = 11" by simp
  with b c show ?thesis by simp
qed

text \<open>
  Claim C1: once \<^verbatim>\<open>Record.load\<close> has returned a record and left the file at \<open>f1\<close>,
  \<^verbatim>\<open>WARC.read_record\<close> reads the next four bytes and raises \<^verbatim>\<open>IOError\<close> exactly when they are
  not the two line terminators; when they are, the file is four bytes further, and the
  result is the record with a flag that is false exactly when a peek of one byte there
  returns nothing, the peek leaving the position where it was.
\<close>

theorem C1_read_record_delimiter:
  assumes "Record_load f pb = Inr (r, f1, w)"
  shows "(WARC_read_record f pb = Inl IOError
            \<longleftrightarrow> take 4 (drop (pos f1) (content f1)) \<noteq> FIELD_DELIM_BYTES) \<and>
         (take 4 (drop (pos f1) (content f1)) = FIELD_DELIM_BYTES \<longrightarrow>
            WARC_read_record f pb =
              Inr ((r, file_peek (f1\<lparr>pos := pos f1 + 4\<rparr>) 1 \<noteq> []),
                   f1\<lparr>pos := pos f1 + 4\<rparr>, w))"
proof -
  define data where "data = take 4 (drop (pos f1) (content f1))"
  have l4: "length FIELD_DELIM_BYTES = 4"
    by (simp add: FIELD_DELIM_BYTES_def NEWLINE_BYTES_def)
  have rd: "file_read f1 (int (length FIELD_DELIM_BYTES))
              = Inr (data, f1\<lparr>pos := pos f1 + length data\<rparr>)"
    by (simp add: l4 file_read_def Let_def data_def)
  have unf: "WARC_read_record f pb =
      (if data \<noteq> FIELD_DELIM_BYTES then Inl IOError
       else if file_peek (f1\<lparr>pos := pos f1 + length data\<rparr>) 1 = []
            then Inr ((r, False), f1\<lparr>pos := pos f1 + length data\<rparr>, w)
            else Inr ((r, True), f1\<lparr>pos := pos f1 + length data\<rparr>, w))"
    unfolding WARC_read_record_def by (simp add: assms rd)
  show ?thesis
  proof (cases "data = FIELD_DELIM_BYTES")
    case True
    then have "length data = 4" by (simp add: l4)
    with unf True show ?thesis by (simp add: data_def[symmetric])
  next
    case False
    with unf show ?thesis by (simp add: data_def[symmetric])
  qed
qed

text \<open>
  Claim C1 on the sample file, whose only record is followed by the delimiter and the end
  of the file.
\<close>

theorem C1_read_record_delimiter_witness:
  "WARC_read_record warcfields_file False
     = Inr ((warcfields_record, False), warcfields_file\<lparr>pos := 87\<rparr>, [Length_changed 12 11])"
proof -
  let ?f1 = "warcfields_file\<lparr>pos := 83\<rparr>"
  have d: "take 4 (drop (pos ?f1) (content ?f1)) = FIELD_DELIM_BYTES" by code_simp
  have p: "(file_peek (warcfields_file\<lparr>pos := 87\<rparr>) 1 \<noteq> []) = False" by code_simp
  have q: "?f1\<lparr>pos := pos ?f1 + 4\<rparr> = warcfields_file\<lparr>pos := 87\<rparr>" by simp
  from C1_read_record_delimiter[OF warcfields_load, THEN conjunct2, THEN mp, OF d]
  show ?thesis unfolding q p .
qed

section \<open>An example\<close>

text \<open>
  A file holding one \<^verbatim>\<open>warcinfo\<close> record with an empty block: \<^verbatim>\<open>read_record\<close> returns the record
  and reports that no record follows.
\<close>

lemma end_to_end_example:
  "WARC_read_record \<lparr>content = ''WARC/1.0'' @ NEWLINE @ ''WARC-Type: warcinfo'' @ NEWLINE
        @ ''Content-Length: 0'' @ NEWLINE @ NEWLINE @ NEWLINE @ NEWLINE, pos = 0\<rparr> False
   = Inr ((\<lparr>header = \<lparr>version = ''1.0'',
              header_fields = [(''WARC-Type'', PyStr ''warcinfo''),
                               (''Content-Length'', PyStr ''0'')]\<rparr>,
            content_block = BinaryBlock \<lparr>file_offset = 52, length_ref = Some 0\<rparr>,
            record_file_offset = 0\<rparr>, False),
          \<lparr>content = ''WARC/1.0'' @ NEWLINE @ ''WARC-Type: warcinfo'' @ NEWLINE
        @ ''Content-Length: 0'' @ NEWLINE @ NEWLINE @ NEWLINE @ NEWLINE, pos = 56\<rparr>, [])"
  by code_simp

end
